theory Spec2Isabelle
  imports Main "HOL-Library.Signed_Division" "HOL-Library.Multiset"
begin

section \<open>The double round-robin assignor of librdkafka\<close>

text \<open>
  A shallow embedding of \<^verbatim>\<open>rd_kafka_doubleroundrobin_assignor_assign_cb\<close>
  (\<^verbatim>\<open>src/rdkafka_doubleroundrobin_assignor.c\<close>). C \<^verbatim>\<open>int\<close> values are HOL
  integers: every value of the function is an index, a count or a cursor bounded by an
  array length or by the partition count, so no arithmetic leaves the range of \<^verbatim>\<open>int\<close>.
  An array is a list of its declared length, read and written through checked
  accessors: an access outside the array and a remainder by zero are undefined in C and
  are values of the type \<open>fault\<close> here.
\<close>

subsection \<open>Undefined behaviour as a value\<close>

datatype fault = OutOfBounds | DivByZero

fun fbind :: "fault + 'a \<Rightarrow> ('a \<Rightarrow> fault + 'b) \<Rightarrow> fault + 'b" where
  "fbind (Inl e) f = Inl e"
| "fbind (Inr x) f = f x"

text \<open>\<^verbatim>\<open>a[i]\<close> as an rvalue and \<^verbatim>\<open>a[i] = v\<close>.\<close>

definition arr_get :: "'a list \<Rightarrow> int \<Rightarrow> fault + 'a" where
  "arr_get xs i = (if 0 \<le> i \<and> i < int (length xs) then Inr (xs ! nat i) else Inl OutOfBounds)"

definition arr_set :: "'a list \<Rightarrow> int \<Rightarrow> 'a \<Rightarrow> fault + 'a list" where
  "arr_set xs i v = (if 0 \<le> i \<and> i < int (length xs) then Inr (xs[nat i := v]) else Inl OutOfBounds)"

text \<open>C's \<^verbatim>\<open>a % b\<close> on \<^verbatim>\<open>int\<close>: the remainder of the division that truncates toward zero.\<close>

definition c_rem :: "int \<Rightarrow> int \<Rightarrow> fault + int" where
  "c_rem a b = (if b = 0 then Inl DivByZero else Inr (a smod b))"

subsection \<open>Data\<close>

text \<open>
  \<^verbatim>\<open>rd_kafka_group_member_t\<close>: the member id, the subscription (topic names) and the
  assignment, a list of (topic, partition) in the order of the additions.
\<close>

record group_member =
  rkgm_member_id :: string
  rkgm_subscription :: "string list"
  rkgm_assignment :: "(string \<times> int) list"

text \<open>\<^verbatim>\<open>rd_kafka_metadata_topic_t\<close>: the topic's name and its partition count, a C \<^verbatim>\<open>int\<close>.\<close>

record metadata_topic =
  topic :: string
  partition_cnt :: int

text \<open>
  \<^verbatim>\<open>rd_kafka_assignor_topic_t\<close>: the topic's metadata and the list of its eligible
  members. The C list holds references to group members; the model names each
  referenced member by its id.
\<close>

record assignor_topic =
  metadata :: metadata_topic
  members :: "string list"

text \<open>
  The result of \<^verbatim>\<open>rd_kafka_str_member_is_replicate\<close> on two member ids, an \<^verbatim>\<open>int\<close>.
  The function is not part of the source file; it is a parameter of the model.
  The \<^verbatim>\<open>switch\<close> acts on 0 (close the group), 1 (same group) and does nothing for
  every other value.
\<close>

type_synonym classify = "string \<Rightarrow> string \<Rightarrow> int"

subsection \<open>Sorting the member array\<close>

text \<open>
  Modelled from the spec: the comparator \<^verbatim>\<open>rd_kafka_group_member_cmp\<close> is not in the
  source file; the spec describes it as the lexicographic order of the member ids.
  \<open>str_le a b\<close> compares byte by byte, a proper prefix first.
\<close>

fun str_le :: "string \<Rightarrow> string \<Rightarrow> bool" where
  "str_le [] b = True"
| "str_le (x # a) [] = False"
| "str_le (x # a) (y # b) =
     ((of_char x :: nat) < of_char y \<or> (x = y \<and> str_le a b))"

text \<open>
  \<^verbatim>\<open>qsort(members, member_cnt, sizeof(*members), rd_kafka_group_member_cmp)\<close>: the array
  is rearranged in place into ascending order of the member ids. Member ids are
  unique, so there is one such arrangement; the model computes it by insertion.
\<close>

fun insert_member :: "group_member \<Rightarrow> group_member list \<Rightarrow> group_member list" where
  "insert_member m [] = [m]"
| "insert_member m (x # xs) =
     (if str_le (rkgm_member_id m) (rkgm_member_id x) then m # x # xs
      else x # insert_member m xs)"

definition qsort_members :: "group_member list \<Rightarrow> group_member list" where
  "qsort_members ms = foldr insert_member ms []"

subsection \<open>The replica grouper (lines 75 to 103)\<close>

text \<open>
  The locals of the grouping pass: \<^verbatim>\<open>different_consumers\<close> and
  \<^verbatim>\<open>resorted_member_lists\<close> are arrays of \<^verbatim>\<open>member_cnt + 1\<close> cells,
  \<^verbatim>\<open>recount_member\<close> and \<^verbatim>\<open>resorted_member_lists_pos\<close> their fill indices.
  A cell that has not been written yet holds 0 in the model; for a topic with at
  least one eligible member the function reads only cells it has written (the
  boundaries \<open>0, \<dots>, recount_member\<close> and the retained members below
  \<^verbatim>\<open>resorted_member_lists_pos\<close>).
\<close>

record grouper =
  different_consumers :: "int list"
  recount_member :: int
  resorted_member_lists :: "int list"
  resorted_member_lists_pos :: int

text \<open>Lines 78 to 84.\<close>

definition grouper_init :: "int \<Rightarrow> fault + grouper" where
  "grouper_init member_cnt =
     fbind (arr_set (replicate (nat (member_cnt + 1)) 0) 0 (- 1)) (\<lambda>dc.
       Inr \<lparr> different_consumers = dc, recount_member = 1,
             resorted_member_lists = replicate (nat (member_cnt + 1)) 0,
             resorted_member_lists_pos = 0 \<rparr>)"

text \<open>The \<^verbatim>\<open>switch\<close> of lines 89 to 100, for the pair at \<open>i\<close> and \<open>i + 1\<close>.\<close>

definition grouper_switch :: "int \<Rightarrow> int \<Rightarrow> grouper \<Rightarrow> fault + grouper" where
  "grouper_switch status i g =
     (if status = 0 then
        fbind (arr_set (different_consumers g) (recount_member g) (resorted_member_lists_pos g)) (\<lambda>dc.
        fbind (arr_set (resorted_member_lists g) (resorted_member_lists_pos g) i) (\<lambda>rs.
          Inr \<lparr> different_consumers = dc, recount_member = recount_member g + 1,
                resorted_member_lists = rs,
                resorted_member_lists_pos = resorted_member_lists_pos g + 1 \<rparr>))
      else if status = 1 then
        fbind (arr_set (resorted_member_lists g) (resorted_member_lists_pos g) i) (\<lambda>rs.
          Inr (g \<lparr> resorted_member_lists := rs,
                   resorted_member_lists_pos := resorted_member_lists_pos g + 1 \<rparr>))
      else Inr g)"

text \<open>The loop of lines 86 to 101: \<^verbatim>\<open>for (int i = 0; i < member_cnt - 1; ++i)\<close>.\<close>

function grouper_loop ::
  "classify \<Rightarrow> group_member list \<Rightarrow> int \<Rightarrow> int \<Rightarrow> grouper \<Rightarrow> fault + grouper" where
  "grouper_loop cls ms member_cnt i g =
     (if i < member_cnt - 1 then
        (case fbind (arr_get ms i) (\<lambda>a.
              fbind (arr_get ms (i + 1)) (\<lambda>b.
                grouper_switch (cls (rkgm_member_id a) (rkgm_member_id b)) i g)) of
           Inl e \<Rightarrow> Inl e
         | Inr g' \<Rightarrow> grouper_loop cls ms member_cnt (i + 1) g')
      else Inr g)"
  by pat_completeness auto
termination
  by (relation "measure (\<lambda>(cls, ms, member_cnt, i, g). nat (member_cnt - 1 - i))") auto

declare grouper_loop.simps [simp del]

text \<open>Lines 102 and 103: the last member closes the last group.\<close>

definition grouper_close :: "int \<Rightarrow> grouper \<Rightarrow> fault + grouper" where
  "grouper_close member_cnt g =
     fbind (arr_set (different_consumers g) (recount_member g) (resorted_member_lists_pos g)) (\<lambda>dc.
     fbind (arr_set (resorted_member_lists g) (resorted_member_lists_pos g) (member_cnt - 1)) (\<lambda>rs.
       Inr (g \<lparr> different_consumers := dc, resorted_member_lists := rs,
                resorted_member_lists_pos := resorted_member_lists_pos g + 1 \<rparr>)))"

definition replica_grouper :: "classify \<Rightarrow> group_member list \<Rightarrow> int \<Rightarrow> fault + grouper" where
  "replica_grouper cls ms member_cnt =
     fbind (grouper_init member_cnt) (\<lambda>g0.
     fbind (grouper_loop cls ms member_cnt 0 g0) (\<lambda>g1.
       grouper_close member_cnt g1))"

subsection \<open>Group sizes (lines 112 to 116)\<close>

function sizeof_loop :: "grouper \<Rightarrow> int \<Rightarrow> int list \<Rightarrow> fault + int list" where
  "sizeof_loop g group_id sizeof_member_group =
     (if group_id < recount_member g then
        (case fbind (arr_get (different_consumers g) (group_id + 1)) (\<lambda>hi.
              fbind (arr_get (different_consumers g) group_id) (\<lambda>lo.
                arr_set sizeof_member_group group_id (hi - lo))) of
           Inl e \<Rightarrow> Inl e
         | Inr sizes' \<Rightarrow> sizeof_loop g (group_id + 1) sizes')
      else Inr sizeof_member_group)"
  by pat_completeness auto
termination
  by (relation "measure (\<lambda>(g, group_id, sizes). nat (recount_member g - group_id))") auto

declare sizeof_loop.simps [simp del]

subsection \<open>The distribution loop (lines 105 and 122 to 146)\<close>

text \<open>
  Modelled from the spec: \<^verbatim>\<open>rd_kafka_topic_partition_list_add\<close> is not in the source
  file; it appends the pair (topic, partition) to the assignment of the member.
\<close>

definition rd_kafka_topic_partition_list_add :: "group_member \<Rightarrow> string \<Rightarrow> int \<Rightarrow> group_member" where
  "rd_kafka_topic_partition_list_add rkgm t part =
     rkgm \<lparr> rkgm_assignment := rkgm_assignment rkgm @ [(t, part)] \<rparr>"

text \<open>
  The cursors of the loop: \<^verbatim>\<open>next\<close>, the group served last (\<open>next_group\<close> here,
  as \<open>next\<close> is a keyword of Isabelle), and \<^verbatim>\<open>next_in_member_group\<close>, for every
  group the position served last. Both start at \<open>- 1\<close>.
\<close>

record cursors =
  next_group :: int
  next_in_member_group :: "int list"

text \<open>
  Lines 127 to 134: the cursors advance and the index into \<^verbatim>\<open>members\<close> is computed.
\<close>

definition rotate :: "grouper \<Rightarrow> int list \<Rightarrow> cursors \<Rightarrow> fault + (cursors \<times> int)" where
  "rotate g sizeof_member_group c =
     fbind (c_rem (next_group c + 1) (recount_member g)) (\<lambda>nxt.
     fbind (arr_get (next_in_member_group c) nxt) (\<lambda>cur.
     fbind (arr_get sizeof_member_group nxt) (\<lambda>sz.
     fbind (c_rem (cur + 1) sz) (\<lambda>cur'.
     fbind (arr_set (next_in_member_group c) nxt cur') (\<lambda>nimg.
     fbind (arr_get (different_consumers g) nxt) (\<lambda>lo.
     fbind (arr_get (resorted_member_lists g) (lo + 1 + cur')) (\<lambda>idx.
       Inr (\<lparr> next_group = nxt, next_in_member_group = nimg \<rparr>, idx))))))))"

text \<open>
  The loop of lines 125 to 146:
  \<^verbatim>\<open>for (int partition = 0; partition < partition_cnt; partition++)\<close>, with
  \<open>part\<close> for the loop variable \<^verbatim>\<open>partition\<close>. The debug line of lines 136 to
  141 writes to the log only and is left out.
\<close>

function distribute_loop ::
  "grouper \<Rightarrow> int list \<Rightarrow> metadata_topic \<Rightarrow> int \<Rightarrow> cursors \<Rightarrow> group_member list
     \<Rightarrow> fault + group_member list" where
  "distribute_loop g sizes md part c ms =
     (if part < partition_cnt md then
        (case fbind (rotate g sizes c) (\<lambda>(c', idx).
              fbind (arr_get ms idx) (\<lambda>rkgm.
              fbind (arr_set ms idx
                       (rd_kafka_topic_partition_list_add rkgm (topic md) part)) (\<lambda>ms'.
                Inr (c', ms')))) of
           Inl e \<Rightarrow> Inl e
         | Inr (c', ms') \<Rightarrow> distribute_loop g sizes md (part + 1) c' ms')
      else Inr ms)"
  by pat_completeness auto
termination
  by (relation "measure (\<lambda>(g, sizes, md, part, c, ms). nat (partition_cnt md - part))") auto

declare distribute_loop.simps [simp del]

subsection \<open>One topic, and the whole pass\<close>

text \<open>
  The body of the loop over the eligible topics (lines 68 to 146) for the topic
  \<open>et\<close>. The \<^verbatim>\<open>qsort\<close> of line 72 sorts the whole member array of the caller; the
  \<^verbatim>\<open>member_cnt\<close> declared on line 75 is the number of the topic's eligible members.
\<close>

definition assign_topic ::
  "classify \<Rightarrow> group_member list \<Rightarrow> assignor_topic \<Rightarrow> fault + group_member list" where
  "assign_topic cls ms0 et =
     (let ms = qsort_members ms0;
          member_cnt = int (length (members et)) in
      fbind (replica_grouper cls ms member_cnt) (\<lambda>g.
      fbind (sizeof_loop g 0 (replicate (nat (recount_member g)) 0)) (\<lambda>sizes.
        distribute_loop g sizes (metadata et) 0
          \<lparr> next_group = - 1,
            next_in_member_group = replicate (nat (recount_member g)) (- 1) \<rparr> ms)))"

text \<open>The loop of line 66 over \<^verbatim>\<open>eligible_topics\<close>.\<close>

fun topics_loop ::
  "classify \<Rightarrow> assignor_topic list \<Rightarrow> group_member list \<Rightarrow> fault + group_member list" where
  "topics_loop cls [] ms = Inr ms"
| "topics_loop cls (et # ets) ms = fbind (assign_topic cls ms et) (topics_loop cls ets)"

text \<open>
  The entry point: it returns the code of line 148 together with the error string
  buffer and the member array as the call leaves them.
\<close>

definition rd_kafka_doubleroundrobin_assignor_assign_cb ::
  "classify \<Rightarrow> group_member list \<Rightarrow> assignor_topic list \<Rightarrow> string
     \<Rightarrow> fault + (int \<times> string \<times> group_member list)" where
  "rd_kafka_doubleroundrobin_assignor_assign_cb cls ms eligible_topics errstr =
     fbind (topics_loop cls eligible_topics ms) (\<lambda>ms'. Inr (0, errstr, ms'))"

section \<open>Definitions for the statements and the proofs\<close>

text \<open>
  The invariant of the grouping loop before the pair at \<open>i\<close>, for \<open>n\<close> eligible
  members: the boundaries written so far (the entries below \<^verbatim>\<open>recount_member\<close>) start
  at \<open>- 1\<close> and increase strictly, the last of them is below
  \<^verbatim>\<open>resorted_member_lists_pos\<close>, and the members retained so far are indices of
  \<open>0, \<dots>, i - 1\<close> in increasing order.
\<close>

definition grouper_inv :: "int \<Rightarrow> int \<Rightarrow> grouper \<Rightarrow> bool" where
  "grouper_inv n i g \<longleftrightarrow>
     length (different_consumers g) = nat (n + 1) \<and>
     length (resorted_member_lists g) = nat (n + 1) \<and>
     1 \<le> recount_member g \<and> recount_member g \<le> i + 1 \<and>
     0 \<le> resorted_member_lists_pos g \<and> resorted_member_lists_pos g \<le> i \<and>
     different_consumers g ! 0 = - 1 \<and>
     (\<forall>k. Suc k < nat (recount_member g) \<longrightarrow>
          different_consumers g ! k < different_consumers g ! Suc k) \<and>
     different_consumers g ! (nat (recount_member g) - 1) < resorted_member_lists_pos g \<and>
     (\<forall>k < nat (resorted_member_lists_pos g).
          0 \<le> resorted_member_lists g ! k \<and> resorted_member_lists g ! k < i) \<and>
     (\<forall>k. Suc k < nat (resorted_member_lists_pos g) \<longrightarrow>
          resorted_member_lists g ! k < resorted_member_lists g ! Suc k)"

text \<open>
  What holds of the grouper's result for \<open>n \<ge> 1\<close> eligible members: the boundaries
  \<open>0, \<dots>, recount_member\<close> start at \<open>- 1\<close>, increase strictly and end at the last
  retained position; the retained members are indices of \<open>0, \<dots>, n - 1\<close> in increasing
  order, and the last of them is \<open>n - 1\<close>.
\<close>

definition grouper_ok :: "int \<Rightarrow> grouper \<Rightarrow> bool" where
  "grouper_ok n g \<longleftrightarrow>
     length (different_consumers g) = nat (n + 1) \<and>
     length (resorted_member_lists g) = nat (n + 1) \<and>
     1 \<le> recount_member g \<and> recount_member g \<le> n \<and>
     1 \<le> resorted_member_lists_pos g \<and> resorted_member_lists_pos g \<le> n \<and>
     different_consumers g ! 0 = - 1 \<and>
     (\<forall>k < nat (recount_member g).
          different_consumers g ! k < different_consumers g ! Suc k) \<and>
     different_consumers g ! nat (recount_member g) = resorted_member_lists_pos g - 1 \<and>
     (\<forall>k < nat (resorted_member_lists_pos g).
          0 \<le> resorted_member_lists g ! k \<and> resorted_member_lists g ! k < n) \<and>
     (\<forall>k. Suc k < nat (resorted_member_lists_pos g) \<longrightarrow>
          resorted_member_lists g ! k < resorted_member_lists g ! Suc k) \<and>
     resorted_member_lists g ! nat (resorted_member_lists_pos g - 1) = n - 1"

text \<open>
  The size of group \<open>k\<close> as the loop of lines 113 to 116 computes it, and the array
  of all the sizes.
\<close>

definition group_size :: "grouper \<Rightarrow> nat \<Rightarrow> int" where
  "group_size g k = different_consumers g ! Suc k - different_consumers g ! k"

definition group_sizes :: "grouper \<Rightarrow> int list" where
  "group_sizes g = map (group_size g) [0..<nat (recount_member g)]"

text \<open>\<open>served m r K\<close>: how many of \<open>0, \<dots>, K - 1\<close> leave the remainder \<open>r\<close> modulo \<open>m\<close>.\<close>

definition served :: "nat \<Rightarrow> nat \<Rightarrow> nat \<Rightarrow> nat" where
  "served m r K = length (filter (\<lambda>q. q mod m = r) [0..<K])"

text \<open>
  The closed form of the rotation: partition \<open>p\<close> is served by group \<open>p mod G\<close>, at
  the position \<open>(p div G) mod size\<close> of that group. \<open>slot g p\<close> is the index into
  \<^verbatim>\<open>resorted_member_lists\<close> and \<open>selected g p\<close> the index into \<^verbatim>\<open>members\<close>.
\<close>

definition slot :: "grouper \<Rightarrow> nat \<Rightarrow> int" where
  "slot g p =
     (let k = p mod nat (recount_member g) in
      different_consumers g ! k + 1 + int (p div nat (recount_member g)) mod group_size g k)"

definition selected :: "grouper \<Rightarrow> nat \<Rightarrow> int" where
  "selected g p = resorted_member_lists g ! nat (slot g p)"

text \<open>
  The invariant of the distribution loop before partition \<open>p\<close>: the next group is
  \<open>p mod G\<close>, and the cursor of every group \<open>k\<close> has advanced once for every
  partition below \<open>p\<close> that group \<open>k\<close> has served.
\<close>

definition cursors_inv :: "grouper \<Rightarrow> nat \<Rightarrow> cursors \<Rightarrow> bool" where
  "cursors_inv g p c \<longleftrightarrow>
     length (next_in_member_group c) = nat (recount_member g) \<and>
     - 1 \<le> next_group c \<and>
     (next_group c + 1) mod recount_member g = int (p mod nat (recount_member g)) \<and>
     (\<forall>k < nat (recount_member g).
        - 1 \<le> next_in_member_group c ! k \<and>
        (next_in_member_group c ! k + 1) mod group_size g k =
          int (served (nat (recount_member g)) k p) mod group_size g k)"

text \<open>
  \<open>deal sel t ps ms\<close>: for every partition \<open>p\<close> of \<open>ps\<close>, in the order of the list,
  the pair \<open>(t, p)\<close> is added to the member at index \<open>sel p\<close>.
\<close>

definition deal :: "(nat \<Rightarrow> int) \<Rightarrow> string \<Rightarrow> nat list \<Rightarrow> group_member list \<Rightarrow> group_member list" where
  "deal sel t ps ms =
     fold (\<lambda>p ms. ms[nat (sel p) := rd_kafka_topic_partition_list_add (ms ! nat (sel p)) t (int p)])
       ps ms"

text \<open>
  Scenario B of the spec: the members A-1, A-2 and B-1, where A-1 and A-2 are
  classified as members of the same group (1) and every other pair as distinct (0),
  and one topic of 4 partitions for which all three are eligible.
\<close>

definition scenario_B_classify :: classify where
  "scenario_B_classify a b = (if a = ''A-1'' \<and> b = ''A-2'' then 1 else 0)"

definition scenario_B_members :: "group_member list" where
  "scenario_B_members =
     [\<lparr> rkgm_member_id = ''A-1'', rkgm_subscription = [''t''], rkgm_assignment = [] \<rparr>,
      \<lparr> rkgm_member_id = ''A-2'', rkgm_subscription = [''t''], rkgm_assignment = [] \<rparr>,
      \<lparr> rkgm_member_id = ''B-1'', rkgm_subscription = [''t''], rkgm_assignment = [] \<rparr>]"

definition scenario_B_topic :: assignor_topic where
  "scenario_B_topic =
     \<lparr> metadata = \<lparr> topic = ''t'', partition_cnt = 4 \<rparr>,
       members = [''A-1'', ''A-2'', ''B-1''] \<rparr>"

text \<open>
  \<open>received ms ms' i\<close>: the number of entries the assignment of the member at index
  \<open>i\<close> has gained from \<open>ms\<close> to \<open>ms'\<close>.
\<close>

definition received :: "group_member list \<Rightarrow> group_member list \<Rightarrow> int \<Rightarrow> int" where
  "received ms ms' i =
     int (length (rkgm_assignment (ms' ! nat i))) - int (length (rkgm_assignment (ms ! nat i)))"

text \<open>
  The member indices of group \<open>k\<close>, by the mapping of lines 130 to 134: position
  \<open>c\<close> of the group is the member
  \<^verbatim>\<open>resorted_member_lists[different_consumers[k] + 1 + c]\<close>.
\<close>

definition group_members :: "grouper \<Rightarrow> nat \<Rightarrow> int list" where
  "group_members g k =
     map (\<lambda>c. resorted_member_lists g ! nat (different_consumers g ! k + 1 + int c))
       [0..<nat (group_size g k)]"

definition group_received :: "grouper \<Rightarrow> group_member list \<Rightarrow> group_member list \<Rightarrow> nat \<Rightarrow> int" where
  "group_received g ms ms' k = sum_list (map (received ms ms') (group_members g k))"

text \<open>
  The state of the grouping loop before the pair at \<open>i\<close> when every pair so far was
  classified as distinct (0): every member so far closes a group of its own.
\<close>

definition distinct_inv :: "int \<Rightarrow> int \<Rightarrow> grouper \<Rightarrow> bool" where
  "distinct_inv n i g \<longleftrightarrow>
     length (different_consumers g) = nat (n + 1) \<and>
     length (resorted_member_lists g) = nat (n + 1) \<and>
     recount_member g = i + 1 \<and> resorted_member_lists_pos g = i \<and>
     (\<forall>k \<le> nat i. different_consumers g ! k = int k - 1) \<and>
     (\<forall>k < nat i. resorted_member_lists g ! k = int k)"

text \<open>
  Dealing by position, the closed form of what the code does when it finds no
  replicas: partition \<open>p\<close> is added to the member at index \<open>p mod n\<close> of the array
  \<open>ms\<close>, whichever member that is.
\<close>

definition deal_by_position :: "group_member list \<Rightarrow> nat \<Rightarrow> string \<Rightarrow> nat \<Rightarrow> group_member list" where
  "deal_by_position ms n t P =
     fold (\<lambda>p ms. ms[p mod n := rd_kafka_topic_partition_list_add (ms ! (p mod n)) t (int p)])
       [0..<P] ms"

text \<open>
  Two members C0 and C1 that subscribe to the topics t0 and t1, and the topic t0 of 3
  partitions, for which both are eligible.
\<close>

definition two_members :: "group_member list" where
  "two_members =
     [\<lparr> rkgm_member_id = ''C0'', rkgm_subscription = [''t0'', ''t1''], rkgm_assignment = [] \<rparr>,
      \<lparr> rkgm_member_id = ''C1'', rkgm_subscription = [''t0'', ''t1''], rkgm_assignment = [] \<rparr>]"

definition topic_t0 :: assignor_topic where
  "topic_t0 = \<lparr> metadata = \<lparr> topic = ''t0'', partition_cnt = 3 \<rparr>, members = [''C0'', ''C1''] \<rparr>"

text \<open>
  Two members of which only C1 subscribes to the topic t: the topic's list of eligible
  members holds C1 alone.
\<close>

definition c0_unsubscribed :: "group_member list" where
  "c0_unsubscribed =
     [\<lparr> rkgm_member_id = ''C0'', rkgm_subscription = [''u''], rkgm_assignment = [] \<rparr>,
      \<lparr> rkgm_member_id = ''C1'', rkgm_subscription = [''t''], rkgm_assignment = [] \<rparr>]"

definition topic_t_of_c1 :: assignor_topic where
  "topic_t_of_c1 = \<lparr> metadata = \<lparr> topic = ''t'', partition_cnt = 1 \<rparr>, members = [''C1''] \<rparr>"

text \<open>
  One member, eligible for the topic t0 of one partition and for the topic t1 whose
  partition count is malformed (negative).
\<close>

definition one_member :: "group_member list" where
  "one_member =
     [\<lparr> rkgm_member_id = ''C0'', rkgm_subscription = [''t0'', ''t1''], rkgm_assignment = [] \<rparr>]"

definition topic_t0_one :: assignor_topic where
  "topic_t0_one = \<lparr> metadata = \<lparr> topic = ''t0'', partition_cnt = 1 \<rparr>, members = [''C0''] \<rparr>"

definition topic_t1_malformed :: assignor_topic where
  "topic_t1_malformed =
     \<lparr> metadata = \<lparr> topic = ''t1'', partition_cnt = - 1 \<rparr>, members = [''C0''] \<rparr>"

text \<open>A list of member ids in the order of the comparator, pair by pair.\<close>

fun ids_sorted :: "string list \<Rightarrow> bool" where
  "ids_sorted [] = True"
| "ids_sorted [x] = True"
| "ids_sorted (x # y # zs) = (str_le x y \<and> ids_sorted (y # zs))"

text \<open>
  \<open>extends ms ms'\<close>: the array \<open>ms'\<close> holds the members of \<open>ms\<close> at the same
  indices, each with its assignment extended at the end and every other field as it
  was.
\<close>

definition extends :: "group_member list \<Rightarrow> group_member list \<Rightarrow> bool" where
  "extends ms ms' \<longleftrightarrow>
     length ms' = length ms \<and>
     (\<forall>j < length ms. \<exists>ext.
        ms' ! j = (ms ! j) \<lparr> rkgm_assignment := rkgm_assignment (ms ! j) @ ext \<rparr>)"

text \<open>The members C1 and C0 as the caller may pass them: not in the order of their ids.\<close>

definition two_members_swapped :: "group_member list" where
  "two_members_swapped =
     [\<lparr> rkgm_member_id = ''C1'', rkgm_subscription = [''t0'', ''t1''], rkgm_assignment = [] \<rparr>,
      \<lparr> rkgm_member_id = ''C0'', rkgm_subscription = [''t0'', ''t1''], rkgm_assignment = [] \<rparr>]"

definition two_members_dealt :: "group_member list" where
  "two_members_dealt =
     [\<lparr> rkgm_member_id = ''C0'', rkgm_subscription = [''t0'', ''t1''],
         rkgm_assignment = [(''t0'', 0), (''t0'', 2)] \<rparr>,
      \<lparr> rkgm_member_id = ''C1'', rkgm_subscription = [''t0'', ''t1''],
         rkgm_assignment = [(''t0'', 1)] \<rparr>]"

text \<open>
  The spec's plain round robin for one topic. The members are put in sorted order;
  the topic's eligible members are taken in that order (\<open>eligible_positions\<close> are
  their indices in the sorted array, in increasing order), and partition \<open>p\<close> of the
  topic goes to the eligible member at position \<open>p mod n\<close> of them, where \<open>n\<close> is
  their number. A topic without eligible members receives nothing.
\<close>

definition eligible_positions :: "group_member list \<Rightarrow> assignor_topic \<Rightarrow> nat list" where
  "eligible_positions ms et =
     filter (\<lambda>j. rkgm_member_id (ms ! j) \<in> set (members et)) [0..<length ms]"

definition plain_round_robin :: "group_member list \<Rightarrow> assignor_topic \<Rightarrow> group_member list" where
  "plain_round_robin ms0 et =
     (let ms = qsort_members ms0;
          el = eligible_positions ms et in
      if el = [] then ms
      else fold (\<lambda>p ms. ms[el ! (p mod length el) :=
                    rd_kafka_topic_partition_list_add (ms ! (el ! (p mod length el)))
                      (topic (metadata et)) (int p)])
             [0..<nat (partition_cnt (metadata et))] ms)"

text \<open>The spec's plain round robin for a whole pass: topic after topic, each from position 0.\<close>

definition plain_round_robin_pass :: "group_member list \<Rightarrow> assignor_topic list \<Rightarrow> group_member list" where
  "plain_round_robin_pass ms ets = fold (\<lambda>et ms. plain_round_robin ms et) ets ms"

section \<open>Properties\<close>

subsection \<open>Accesses within bounds\<close>

lemma arr_get_Inr: "0 \<le> i \<Longrightarrow> i < int (length xs) \<Longrightarrow> arr_get xs i = Inr (xs ! nat i)"
  by (simp add: arr_get_def)

lemma arr_set_Inr: "0 \<le> i \<Longrightarrow> i < int (length xs) \<Longrightarrow> arr_set xs i v = Inr (xs[nat i := v])"
  by (simp add: arr_set_def)

lemma c_rem_Inr: "0 \<le> a \<Longrightarrow> 0 < b \<Longrightarrow> c_rem a b = Inr (a mod b)"
  by (simp add: c_rem_def smod_int_alt_def sgn_if)

subsection \<open>The grouper\<close>

lemma grouper_init_inv:
  "1 \<le> n \<Longrightarrow> \<exists>g. grouper_init n = Inr g \<and> grouper_inv n 0 g"
  by (simp add: grouper_init_def arr_set_Inr grouper_inv_def)

lemma grouper_switch_inv:
  assumes "grouper_inv n i g" "0 \<le> i" "i < n - 1"
  shows "\<exists>g'. grouper_switch s i g = Inr g' \<and> grouper_inv n (i + 1) g'"
proof -
  obtain R Q where RQ: "recount_member g = int R" "resorted_member_lists_pos g = int Q"
    using assms(1) by (metis grouper_inv_def nonneg_int_cases order_trans zero_le_one)
  have b: "int R < int (length (different_consumers g))"
     "int Q < int (length (resorted_member_lists g))"
    using assms RQ by (auto simp: grouper_inv_def)
  have len: "R < length (different_consumers g)" "Q < length (resorted_member_lists g)"
    using b by simp_all
  have suc: "nat (int Q + 1) = Suc Q" "nat (int R + 1) = Suc R"
    by simp_all
  show ?thesis
    using assms len RQ
    by (auto simp: grouper_switch_def arr_set_Inr grouper_inv_def nth_list_update less_Suc_eq suc)
qed

lemma grouper_loop_inv:
  "grouper_inv n i g \<Longrightarrow> 0 \<le> i \<Longrightarrow> i \<le> n - 1 \<Longrightarrow> n \<le> int (length ms) \<Longrightarrow>
     \<exists>g'. grouper_loop cls ms n i g = Inr g' \<and> grouper_inv n (n - 1) g'"
proof (induction cls ms n i g rule: grouper_loop.induct)
  case (1 cls ms n i g)
  show ?case
  proof (cases "i < n - 1")
    case True
    let ?s = "cls (rkgm_member_id (ms ! nat i)) (rkgm_member_id (ms ! nat (i + 1)))"
    from grouper_switch_inv [OF "1.prems"(1,2) True, of ?s]
    obtain g' where g': "grouper_switch ?s i g = Inr g'" "grouper_inv n (i + 1) g'"
      by blast
    have rd: "arr_get ms i = Inr (ms ! nat i)" "arr_get ms (i + 1) = Inr (ms ! nat (i + 1))"
      using True "1.prems" by (simp_all add: arr_get_Inr)
    have body: "fbind (arr_get ms i) (\<lambda>a. fbind (arr_get ms (i + 1)) (\<lambda>b.
        grouper_switch (cls (rkgm_member_id a) (rkgm_member_id b)) i g)) = Inr g'"
      using rd g'(1) by simp
    have "\<exists>g''. grouper_loop cls ms n (i + 1) g' = Inr g'' \<and> grouper_inv n (n - 1) g''"
      using "1.IH" [OF True body g'(2)] True "1.prems" by simp
    then show ?thesis
      using True body by (subst grouper_loop.simps) simp
  next
    case False
    with "1.prems" have "i = n - 1" by simp
    then show ?thesis
      using "1.prems"(1) by (subst grouper_loop.simps) simp
  qed
qed

lemma grouper_close_ok:
  assumes "grouper_inv n (n - 1) g" "1 \<le> n"
  shows "\<exists>g'. grouper_close n g = Inr g' \<and> grouper_ok n g'"
proof -
  obtain R Q where RQ: "recount_member g = int R" "resorted_member_lists_pos g = int Q"
    using assms(1) by (metis grouper_inv_def nonneg_int_cases order_trans zero_le_one)
  have len: "R < length (different_consumers g)" "Q < length (resorted_member_lists g)"
    using assms RQ by (auto simp: grouper_inv_def)
  have suc: "nat (int Q + 1) = Suc Q" "nat (int R + 1) = Suc R"
    by simp_all
  show ?thesis
    using assms len RQ
    by (auto simp: grouper_close_def arr_set_Inr grouper_inv_def grouper_ok_def
        nth_list_update less_Suc_eq suc)
qed

lemma replica_grouper_ok:
  assumes "1 \<le> n" "n \<le> int (length ms)"
  shows "\<exists>g. replica_grouper cls ms n = Inr g \<and> grouper_ok n g"
proof -
  obtain g0 where g0: "grouper_init n = Inr g0" "grouper_inv n 0 g0"
    using grouper_init_inv [OF assms(1)] by blast
  obtain g1 where g1: "grouper_loop cls ms n 0 g0 = Inr g1" "grouper_inv n (n - 1) g1"
    using grouper_loop_inv [OF g0(2) _ _ assms(2), of cls] assms(1) by auto
  show ?thesis
    using grouper_close_ok [OF g1(2) assms(1)] g0(1) g1(1)
    by (simp add: replica_grouper_def)
qed

lemma dc_strict_mono:
  assumes "grouper_ok n g" "k \<le> nat (recount_member g)"
  shows "j < k \<Longrightarrow> different_consumers g ! j < different_consumers g ! k"
  using assms(2)
proof (induction k)
  case 0
  then show ?case by simp
next
  case (Suc k)
  have step: "different_consumers g ! k < different_consumers g ! Suc k"
    using assms(1) Suc.prems by (simp add: grouper_ok_def)
  show ?case
  proof (cases "j = k")
    case True
    then show ?thesis using step by simp
  next
    case False
    then have "different_consumers g ! j < different_consumers g ! k"
      using Suc by simp
    then show ?thesis using step by simp
  qed
qed

lemma dc_mono:
  assumes "grouper_ok n g" "k \<le> nat (recount_member g)" "j \<le> k"
  shows "different_consumers g ! j \<le> different_consumers g ! k"
  using dc_strict_mono [OF assms(1,2), of j] assms(3)
  by (cases "j = k") auto

lemma rs_strict_mono:
  assumes "grouper_ok n g" "k < nat (resorted_member_lists_pos g)"
  shows "j < k \<Longrightarrow> resorted_member_lists g ! j < resorted_member_lists g ! k"
  using assms(2)
proof (induction k)
  case 0
  then show ?case by simp
next
  case (Suc k)
  have step: "resorted_member_lists g ! k < resorted_member_lists g ! Suc k"
    using assms(1) Suc.prems by (simp add: grouper_ok_def)
  show ?case
  proof (cases "j = k")
    case True
    then show ?thesis using step by simp
  next
    case False
    then have "resorted_member_lists g ! j < resorted_member_lists g ! k"
      using Suc by simp
    then show ?thesis using step by simp
  qed
qed

lemma rs_inj:
  assumes "grouper_ok n g" "j < nat (resorted_member_lists_pos g)"
    "k < nat (resorted_member_lists_pos g)"
    "resorted_member_lists g ! j = resorted_member_lists g ! k"
  shows "j = k"
  using rs_strict_mono [OF assms(1,2), of k] rs_strict_mono [OF assms(1,3), of j] assms(4)
  by (cases j k rule: linorder_cases) auto

subsection \<open>The group sizes\<close>

lemma sizeof_loop_inv:
  assumes "grouper_ok n g"
  shows "j \<le> nat (recount_member g) \<Longrightarrow> length sz = nat (recount_member g) \<Longrightarrow>
    (\<forall>k < j. sz ! k = group_size g k) \<Longrightarrow>
    \<exists>sz'. sizeof_loop g (int j) sz = Inr sz' \<and> length sz' = nat (recount_member g) \<and>
       (\<forall>k < nat (recount_member g). sz' ! k = group_size g k)"
proof (induction "nat (recount_member g) - j" arbitrary: j sz)
  case 0
  then have "j = nat (recount_member g)" by simp
  then show ?case
    using 0 by (subst sizeof_loop.simps) auto
next
  case (Suc d)
  then have lt: "j < nat (recount_member g)" by simp
  have len: "nat (recount_member g) < length (different_consumers g)"
    using assms by (auto simp: grouper_ok_def)
  have body: "fbind (arr_get (different_consumers g) (int j + 1)) (\<lambda>hi.
              fbind (arr_get (different_consumers g) (int j)) (\<lambda>lo.
                arr_set sz (int j) (hi - lo))) = Inr (sz[j := group_size g j])"
  proof -
    have "int j + 1 < int (length (different_consumers g))" "int j < int (length sz)"
      using lt len Suc.prems by linarith+
    then show ?thesis
      by (simp add: arr_get_Inr arr_set_Inr group_size_def nat_add_distrib)
  qed
  have "\<exists>sz'. sizeof_loop g (int (Suc j)) (sz[j := group_size g j]) = Inr sz' \<and>
      length sz' = nat (recount_member g) \<and>
      (\<forall>k < nat (recount_member g). sz' ! k = group_size g k)"
    using Suc.hyps(2) lt Suc.prems
    by (intro Suc.hyps(1)) (auto simp: nth_list_update less_Suc_eq)
  moreover have "int j < recount_member g"
    using lt by linarith
  ultimately show ?case
    using body by (subst sizeof_loop.simps) (simp add: add.commute)
qed

lemma sizeof_loop_ok:
  assumes "grouper_ok n g"
  shows "sizeof_loop g 0 (replicate (nat (recount_member g)) 0) = Inr (group_sizes g)"
proof -
  obtain sz' where sz: "sizeof_loop g (int 0) (replicate (nat (recount_member g)) 0) = Inr sz'"
    "length sz' = nat (recount_member g)"
    "\<forall>k < nat (recount_member g). sz' ! k = group_size g k"
    using sizeof_loop_inv [OF assms, of 0 "replicate (nat (recount_member g)) 0"] by auto
  have "sz' = group_sizes g"
    using sz(2,3) by (intro nth_equalityI) (simp_all add: group_sizes_def)
  then show ?thesis using sz(1) by simp
qed

subsection \<open>Counting remainders\<close>

lemma served_Suc: "served m r (Suc K) = served m r K + (if K mod m = r then 1 else 0)"
  by (simp add: served_def)

lemma served_eq:
  assumes "r < m"
  shows "served m r K = K div m + (if r < K mod m then 1 else 0)"
proof (induction K)
  case 0
  then show ?case by (simp add: served_def)
next
  case (Suc K)
  show ?case
  proof (cases "Suc (K mod m) = m")
    case True
    then show ?thesis
      using assms Suc by (auto simp: served_Suc div_Suc mod_Suc)
  next
    case False
    then show ?thesis
      using assms Suc by (auto simp: served_Suc div_Suc mod_Suc)
  qed
qed

lemma served_self: "0 < m \<Longrightarrow> served m (K mod m) K = K div m"
  by (simp add: served_eq)

subsection \<open>The distribution loop\<close>

lemma group_size_pos:
  assumes "grouper_ok n g" "k < nat (recount_member g)"
  shows "1 \<le> group_size g k"
proof -
  have "different_consumers g ! k < different_consumers g ! Suc k"
    using assms by (simp add: grouper_ok_def)
  then show ?thesis by (simp add: group_size_def)
qed

lemma slot_bounds:
  assumes "grouper_ok n g"
  shows "different_consumers g ! (p mod nat (recount_member g)) < slot g p"
    and "slot g p \<le> different_consumers g ! Suc (p mod nat (recount_member g))"
    and "0 \<le> slot g p" and "slot g p < resorted_member_lists_pos g"
proof -
  let ?G = "nat (recount_member g)"
  let ?k = "p mod ?G"
  have G: "0 < ?G" using assms by (simp add: grouper_ok_def)
  then have k: "?k < ?G" by simp
  have sz: "1 \<le> group_size g ?k" by (rule group_size_pos [OF assms k])
  let ?c = "int (p div ?G) mod group_size g ?k"
  have c: "0 \<le> ?c" "?c < group_size g ?k"
    using sz by simp_all
  have s: "slot g p = different_consumers g ! ?k + 1 + ?c"
    by (simp add: slot_def Let_def)
  show 1: "different_consumers g ! ?k < slot g p" using s c by simp
  show 2: "slot g p \<le> different_consumers g ! Suc ?k"
    using s c by (simp add: group_size_def)
  have "- 1 \<le> different_consumers g ! ?k"
    using dc_mono [OF assms, of ?k 0] k assms by (simp add: grouper_ok_def)
  then show "0 \<le> slot g p" using 1 by simp
  have "different_consumers g ! Suc ?k \<le> different_consumers g ! ?G"
    using dc_mono [OF assms, of ?G "Suc ?k"] k by simp
  then show "slot g p < resorted_member_lists_pos g"
    using 2 assms by (simp add: grouper_ok_def)
qed

lemma selected_bounds:
  assumes "grouper_ok n g"
  shows "0 \<le> selected g p" "selected g p < n"
proof -
  have "nat (slot g p) < nat (resorted_member_lists_pos g)"
    using slot_bounds(3,4) [OF assms, of p] by simp
  then show "0 \<le> selected g p" "selected g p < n"
    using assms by (simp_all add: grouper_ok_def selected_def)
qed

lemma grouper_ok_groups:
  assumes "grouper_ok n g"
  shows "\<exists>G. recount_member g = int G \<and> 0 < G"
  using assms by (intro exI [of _ "nat (recount_member g)"]) (simp add: grouper_ok_def)

lemma grouper_ok_lengths:
  assumes "grouper_ok n g"
  shows "int (length (different_consumers g)) = n + 1"
    and "int (length (resorted_member_lists g)) = n + 1"
    and "recount_member g \<le> n" and "resorted_member_lists_pos g \<le> n"
  using assms by (auto simp: grouper_ok_def)

lemma rotate_ok:
  assumes ok: "grouper_ok n g" and inv: "cursors_inv g p c"
  shows "\<exists>c'. rotate g (group_sizes g) c = Inr (c', selected g p) \<and> cursors_inv g (Suc p) c'"
proof -
  obtain G where G: "recount_member g = int G" "0 < G"
    using grouper_ok_groups [OF ok] by blast
  let ?k = "p mod G"
  have k: "?k < G" using G by simp
  have kn: "?k < nat (recount_member g)" using k G by simp
  let ?sz = "group_size g ?k"
  have sz: "1 \<le> ?sz" by (rule group_size_pos [OF ok kn])
  let ?cur = "next_in_member_group c ! ?k"
  let ?cur' = "int (p div G) mod ?sz"
  have len: "length (next_in_member_group c) = G"
    using inv G by (simp add: cursors_inv_def)
  have nxt: "c_rem (next_group c + 1) (recount_member g) = Inr (int ?k)"
    using inv G by (simp add: cursors_inv_def c_rem_Inr)
  have cur: "arr_get (next_in_member_group c) (int ?k) = Inr ?cur"
    using k len by (simp add: arr_get_Inr)
  have szs: "arr_get (group_sizes g) (int ?k) = Inr ?sz"
    using k G by (simp add: arr_get_Inr group_sizes_def)
  have curinv: "- 1 \<le> ?cur" "(?cur + 1) mod ?sz = int (served G ?k p) mod ?sz"
    using inv k G by (simp_all add: cursors_inv_def)
  have cur': "c_rem (?cur + 1) ?sz = Inr ?cur'"
    using curinv sz G by (simp add: c_rem_Inr served_self)
  have upd: "arr_set (next_in_member_group c) (int ?k) ?cur' =
      Inr ((next_in_member_group c)[?k := ?cur'])"
    using k len by (simp add: arr_set_Inr)
  have dlen: "int ?k < int (length (different_consumers g))"
    using grouper_ok_lengths [OF ok] k G by linarith
  have lo: "arr_get (different_consumers g) (int ?k) = Inr (different_consumers g ! ?k)"
    using dlen by (simp add: arr_get_Inr)
  have sl: "different_consumers g ! ?k + 1 + ?cur' = slot g p"
    using G by (simp add: slot_def Let_def)
  have slb: "0 \<le> slot g p" "slot g p < int (length (resorted_member_lists g))"
    using slot_bounds(3,4) [OF ok, of p] grouper_ok_lengths [OF ok] by linarith+
  have idx: "arr_get (resorted_member_lists g) (different_consumers g ! ?k + 1 + ?cur') =
      Inr (selected g p)"
    unfolding sl using slb by (simp add: arr_get_Inr selected_def)
  let ?c' = "\<lparr> next_group = int ?k, next_in_member_group = (next_in_member_group c)[?k := ?cur'] \<rparr>"
  have run: "rotate g (group_sizes g) c = Inr (?c', selected g p)"
    unfolding rotate_def by (simp add: nxt cur szs cur' upd lo idx)
  have "cursors_inv g (Suc p) ?c'"
    unfolding cursors_inv_def
  proof (intro conjI allI impI)
    show "length (next_in_member_group ?c') = nat (recount_member g)"
      using len G by simp
    show "- 1 \<le> next_group ?c'" by simp
    show "(next_group ?c' + 1) mod recount_member g = int (Suc p mod nat (recount_member g))"
      using G by (simp add: zmod_int mod_simps add.commute)
  next
    fix j assume j: "j < nat (recount_member g)"
    have "0 \<le> ?cur'" using sz by simp
    then have "- 1 \<le> ?cur'" by linarith
    then show "- 1 \<le> next_in_member_group ?c' ! j"
      using inv j len G by (cases "j = ?k") (simp_all add: cursors_inv_def)
    show "(next_in_member_group ?c' ! j + 1) mod group_size g j =
        int (served (nat (recount_member g)) j (Suc p)) mod group_size g j"
    proof (cases "j = ?k")
      case True
      have "(?cur' + 1) mod ?sz = (int (p div G) + 1) mod ?sz"
        by (simp add: mod_simps)
      then show ?thesis
        using True G k len by (simp add: served_Suc served_self add.commute)
    next
      case False
      then show ?thesis
        using inv j len G by (simp add: served_Suc cursors_inv_def)
    qed
  qed
  then show ?thesis using run by blast
qed

lemma deal_Nil: "deal sel t [] ms = ms"
  by (simp add: deal_def)

lemma deal_Cons:
  "deal sel t (p # ps) ms =
     deal sel t ps (ms[nat (sel p) := rd_kafka_topic_partition_list_add (ms ! nat (sel p)) t (int p)])"
  by (simp add: deal_def)

lemma length_deal: "length (deal sel t ps ms) = length ms"
  by (induction ps arbitrary: ms) (simp_all add: deal_Nil deal_Cons)

lemma deal_nth:
  assumes "j < length ms"
  shows "deal sel t ps ms ! j =
     (ms ! j) \<lparr> rkgm_assignment := rkgm_assignment (ms ! j) @
        map (\<lambda>p. (t, int p)) (filter (\<lambda>p. nat (sel p) = j) ps) \<rparr>"
  using assms
proof (induction ps arbitrary: ms)
  case Nil
  then show ?case by (simp add: deal_Nil)
next
  case (Cons p ps)
  then show ?case
    by (simp add: deal_Cons nth_list_update rd_kafka_topic_partition_list_add_def)
qed

lemma distribute_loop_ok:
  assumes ok: "grouper_ok n g" and n: "n \<le> int (length ms)"
  shows "cursors_inv g p c \<Longrightarrow> length ms' = length ms \<Longrightarrow>
     distribute_loop g (group_sizes g) md (int p) c ms' =
       Inr (deal (selected g) (topic md) [p..<nat (partition_cnt md)] ms')"
proof (induction "nat (partition_cnt md) - p" arbitrary: p c ms')
  case 0
  then have "\<not> int p < partition_cnt md" by linarith
  moreover have "[p..<nat (partition_cnt md)] = []" using 0 by simp
  ultimately show ?case
    by (subst distribute_loop.simps) (simp add: deal_Nil)
next
  case (Suc d)
  then have lt: "p < nat (partition_cnt md)" by simp
  then have lt': "int p < partition_cnt md" by linarith
  obtain c' where c': "rotate g (group_sizes g) c = Inr (c', selected g p)"
      "cursors_inv g (Suc p) c'"
    using rotate_ok [OF ok Suc.prems(1)] by blast
  have sb: "0 \<le> selected g p" "selected g p < int (length ms')"
    using selected_bounds [OF ok, of p] n Suc.prems(2) by simp_all
  let ?ms = "ms'[nat (selected g p) :=
      rd_kafka_topic_partition_list_add (ms' ! nat (selected g p)) (topic md) (int p)]"
  have body: "fbind (rotate g (group_sizes g) c) (\<lambda>(c', idx).
              fbind (arr_get ms' idx) (\<lambda>rkgm.
              fbind (arr_set ms' idx
                       (rd_kafka_topic_partition_list_add rkgm (topic md) (int p))) (\<lambda>ms''.
                Inr (c', ms'')))) = Inr (c', ?ms)"
    using c'(1) sb by (simp add: arr_get_Inr arr_set_Inr)
  have "distribute_loop g (group_sizes g) md (int (Suc p)) c' ?ms =
       Inr (deal (selected g) (topic md) [Suc p..<nat (partition_cnt md)] ?ms)"
    using Suc.hyps(2) Suc.prems(2) by (intro Suc.hyps(1) c'(2)) simp_all
  then show ?case
    using lt lt' body
    by (subst distribute_loop.simps) (simp add: upt_conv_Cons deal_Cons add.commute)
qed

subsection \<open>One topic\<close>

text \<open>
  The eligible members of a topic are distinct members of the array; there are then no
  more of them than the array holds, which is what the theorems below assume.
\<close>

lemma eligible_members_fit:
  assumes "distinct (members et)" "set (members et) \<subseteq> rkgm_member_id ` set ms"
  shows "length (members et) \<le> length ms"
proof -
  have "length (members et) = card (set (members et))"
    using assms(1) by (simp add: distinct_card)
  also have "\<dots> \<le> card (rkgm_member_id ` set ms)"
    using assms(2) by (intro card_mono) simp_all
  also have "\<dots> \<le> card (set ms)"
    by (intro card_image_le) simp
  also have "\<dots> \<le> length ms"
    by (rule card_length)
  finally show ?thesis .
qed

lemma length_insert_member: "length (insert_member m xs) = Suc (length xs)"
  by (induction xs) simp_all

lemma length_qsort_members: "length (qsort_members ms) = length ms"
  by (induction ms) (simp_all add: qsort_members_def length_insert_member)

lemma cursors_inv_init:
  assumes "grouper_ok n g"
  shows "cursors_inv g 0
     \<lparr> next_group = - 1, next_in_member_group = replicate (nat (recount_member g)) (- 1) \<rparr>"
  using assms by (simp add: cursors_inv_def served_def grouper_ok_def)

lemma assign_topic_ok:
  assumes "members et \<noteq> []" "length (members et) \<le> length ms"
  shows "\<exists>g. replica_grouper cls (qsort_members ms) (int (length (members et))) = Inr g \<and>
     grouper_ok (int (length (members et))) g \<and>
     assign_topic cls ms et =
       Inr (deal (selected g) (topic (metadata et)) [0..<nat (partition_cnt (metadata et))]
              (qsort_members ms))"
proof -
  let ?n = "int (length (members et))"
  let ?ms = "qsort_members ms"
  have n: "1 \<le> ?n" "?n \<le> int (length ?ms)"
    using assms by (simp_all add: length_qsort_members Suc_le_eq)
  obtain g where g: "replica_grouper cls ?ms ?n = Inr g" "grouper_ok ?n g"
    using replica_grouper_ok [OF n] by blast
  have "distribute_loop g (group_sizes g) (metadata et) (int 0)
      \<lparr> next_group = - 1, next_in_member_group = replicate (nat (recount_member g)) (- 1) \<rparr> ?ms =
     Inr (deal (selected g) (topic (metadata et)) [0..<nat (partition_cnt (metadata et))] ?ms)"
    by (rule distribute_loop_ok [OF g(2) n(2) cursors_inv_init [OF g(2)] refl])
  then have "assign_topic cls ms et =
       Inr (deal (selected g) (topic (metadata et)) [0..<nat (partition_cnt (metadata et))] ?ms)"
    using g(1) sizeof_loop_ok [OF g(2)] by (simp add: assign_topic_def Let_def)
  then show ?thesis using g by blast
qed

text \<open>
  Claim C1. For a topic with at least one eligible member (and no more eligible members
  than the member array holds, see \<open>eligible_members_fit\<close>), the body of the topic
  loop returns, and the member
  array it leaves is the sorted array in which every partition \<open>p\<close> of
  \<open>0, \<dots>, P - 1\<close> has been added to the assignment of exactly one member, the one at
  index \<open>sel p\<close>: the assignment of the member at index \<open>j\<close> is its former
  assignment followed by the pairs (topic, p) for the partitions \<open>p\<close> with
  \<open>sel p = j\<close>, in increasing order of \<open>p\<close>. So the partitions added for the topic
  are exactly \<open>0, \<dots>, P - 1\<close>, each once; for \<open>P \<le> 0\<close> nothing is added.
\<close>

theorem partitions_dealt_once:
  assumes "members et \<noteq> []" "length (members et) \<le> length ms"
  shows "\<exists>ms' sel. assign_topic cls ms et = Inr ms' \<and> length ms' = length ms \<and>
     (\<forall>p < nat (partition_cnt (metadata et)). sel p < length ms) \<and>
     (\<forall>j < length ms. ms' ! j =
        (qsort_members ms ! j) \<lparr> rkgm_assignment := rkgm_assignment (qsort_members ms ! j) @
           map (\<lambda>p. (topic (metadata et), int p))
             (filter (\<lambda>p. sel p = j) [0..<nat (partition_cnt (metadata et))]) \<rparr>)"
proof -
  let ?P = "nat (partition_cnt (metadata et))"
  obtain g where g: "grouper_ok (int (length (members et))) g"
    "assign_topic cls ms et =
       Inr (deal (selected g) (topic (metadata et)) [0..<?P] (qsort_members ms))"
    using assign_topic_ok [OF assms] by blast
  let ?ms' = "deal (selected g) (topic (metadata et)) [0..<?P] (qsort_members ms)"
  let ?sel = "\<lambda>p. nat (selected g p)"
  have sel: "\<forall>p < ?P. ?sel p < length ms"
  proof (intro allI impI)
    fix p
    show "?sel p < length ms"
      using selected_bounds [OF g(1), of p] assms(2) by linarith
  qed
  have len: "length ?ms' = length ms"
    by (simp add: length_deal length_qsort_members)
  have nth: "\<forall>j < length ms. ?ms' ! j =
        (qsort_members ms ! j) \<lparr> rkgm_assignment := rkgm_assignment (qsort_members ms ! j) @
           map (\<lambda>p. (topic (metadata et), int p)) (filter (\<lambda>p. ?sel p = j) [0..<?P]) \<rparr>"
    by (simp add: deal_nth length_qsort_members)
  show ?thesis
    apply (rule exI [of _ ?ms'])
    apply (rule exI [of _ ?sel])
    apply (intro conjI)
       apply (rule g(2))
      apply (rule len)
     apply (rule sel)
    apply (rule nth)
    done
qed

text \<open>The hypotheses of C1 hold in scenario B of the spec.\<close>

theorem partitions_dealt_once_witness:
  "members scenario_B_topic \<noteq> [] \<and>
   length (members scenario_B_topic) \<le> length scenario_B_members \<and>
   (\<exists>ms' sel. assign_topic scenario_B_classify scenario_B_members scenario_B_topic = Inr ms' \<and>
     length ms' = length scenario_B_members \<and>
     (\<forall>p < nat (partition_cnt (metadata scenario_B_topic)). sel p < length scenario_B_members) \<and>
     (\<forall>j < length scenario_B_members. ms' ! j =
        (qsort_members scenario_B_members ! j) \<lparr> rkgm_assignment :=
           rkgm_assignment (qsort_members scenario_B_members ! j) @
           map (\<lambda>p. (topic (metadata scenario_B_topic), int p))
             (filter (\<lambda>p. sel p = j) [0..<nat (partition_cnt (metadata scenario_B_topic))]) \<rparr>))"
proof -
  have h: "members scenario_B_topic \<noteq> []"
    "length (members scenario_B_topic) \<le> length scenario_B_members"
    by (simp_all add: scenario_B_topic_def scenario_B_members_def)
  show ?thesis
    by (intro conjI h) (rule partitions_dealt_once [OF h])
qed

subsection \<open>Scenario B\<close>

lemma scenario_B_grouper:
  "replica_grouper scenario_B_classify scenario_B_members 3 =
     Inr \<lparr> different_consumers = [- 1, 1, 2, 0], recount_member = 2,
           resorted_member_lists = [0, 1, 2, 0], resorted_member_lists_pos = 3 \<rparr>"
  by code_simp

lemma scenario_B_sizes:
  "sizeof_loop \<lparr> different_consumers = [- 1, 1, 2, 0], recount_member = 2,
           resorted_member_lists = [0, 1, 2, 0], resorted_member_lists_pos = 3 \<rparr> 0 [0, 0] =
     Inr [2, 1]"
  by code_simp

lemma scenario_B_pass:
  "rd_kafka_doubleroundrobin_assignor_assign_cb scenario_B_classify scenario_B_members
       [scenario_B_topic] [] =
     Inr (0, [],
       [\<lparr> rkgm_member_id = ''A-1'', rkgm_subscription = [''t''], rkgm_assignment = [(''t'', 0)] \<rparr>,
        \<lparr> rkgm_member_id = ''A-2'', rkgm_subscription = [''t''], rkgm_assignment = [(''t'', 2)] \<rparr>,
        \<lparr> rkgm_member_id = ''B-1'', rkgm_subscription = [''t''],
           rkgm_assignment = [(''t'', 1), (''t'', 3)] \<rparr>])"
  by code_simp

text \<open>
  Claim C4. Scenario B: the sorted members A-1, A-2, B-1, the pair (A-1, A-2)
  classified as the same group (1) and the pair (A-2, B-1) as distinct (0), one topic
  with 4 partitions. The grouper leaves the boundaries \<open>- 1, 1, 2\<close> over the retained
  members \<open>0, 1, 2\<close>, that is the groups {A-1, A-2} and {B-1} of sizes 2 and 1, and the
  pass assigns partition 0 to A-1, 1 to B-1, 2 to A-2 and 3 to B-1.
\<close>

theorem scenario_B:
  "replica_grouper scenario_B_classify scenario_B_members 3 =
     Inr \<lparr> different_consumers = [- 1, 1, 2, 0], recount_member = 2,
           resorted_member_lists = [0, 1, 2, 0], resorted_member_lists_pos = 3 \<rparr> \<and>
   sizeof_loop \<lparr> different_consumers = [- 1, 1, 2, 0], recount_member = 2,
           resorted_member_lists = [0, 1, 2, 0], resorted_member_lists_pos = 3 \<rparr> 0 [0, 0] =
     Inr [2, 1] \<and>
   rd_kafka_doubleroundrobin_assignor_assign_cb scenario_B_classify scenario_B_members
       [scenario_B_topic] [] =
     Inr (0, [],
       [\<lparr> rkgm_member_id = ''A-1'', rkgm_subscription = [''t''], rkgm_assignment = [(''t'', 0)] \<rparr>,
        \<lparr> rkgm_member_id = ''A-2'', rkgm_subscription = [''t''], rkgm_assignment = [(''t'', 2)] \<rparr>,
        \<lparr> rkgm_member_id = ''B-1'', rkgm_subscription = [''t''],
           rkgm_assignment = [(''t'', 1), (''t'', 3)] \<rparr>])"
  using scenario_B_grouper scenario_B_sizes scenario_B_pass by (intro conjI)

subsection \<open>Safety of the indices and of the remainders\<close>

lemma retained_index_bounds:
  assumes ok: "grouper_ok n g" and k: "k < nat (recount_member g)"
    and c: "0 \<le> c" "c < group_size g k"
  shows "0 \<le> different_consumers g ! k + 1 + c"
    and "different_consumers g ! k + 1 + c < resorted_member_lists_pos g"
proof -
  have "- 1 \<le> different_consumers g ! k"
    using dc_mono [OF ok, of k 0] k ok by (simp add: grouper_ok_def)
  then show "0 \<le> different_consumers g ! k + 1 + c" using c by simp
  have "different_consumers g ! Suc k \<le> different_consumers g ! nat (recount_member g)"
    using dc_mono [OF ok, of "nat (recount_member g)" "Suc k"] k by simp
  moreover have "different_consumers g ! nat (recount_member g) = resorted_member_lists_pos g - 1"
    using ok by (simp add: grouper_ok_def)
  ultimately show "different_consumers g ! k + 1 + c < resorted_member_lists_pos g"
    using c by (simp add: group_size_def)
qed

text \<open>
  Claim C10. For \<open>n \<ge> 1\<close> eligible members (and a member array of at least
  \<open>n\<close> members) the grouper returns; its boundary array is strictly increasing over
  the entries \<open>0, \<dots>, recount_member\<close>; the last retained member is \<open>n - 1\<close>; there
  is at least one group and every computed group size is at least 1; for every group
  \<open>k\<close> and every position \<open>c\<close> below its size the index
  \<open>different_consumers[k] + 1 + c\<close> lies within the retained entries of
  \<^verbatim>\<open>resorted_member_lists\<close>; and the distribution loop returns for every partition
  count: no remainder is taken by zero and no array is left.
\<close>

theorem grouper_safety:
  assumes "1 \<le> n" "n \<le> int (length ms)"
  shows "\<exists>g sizes. replica_grouper cls ms n = Inr g \<and>
     sizeof_loop g 0 (replicate (nat (recount_member g)) 0) = Inr sizes \<and>
     (\<forall>k < nat (recount_member g).
        different_consumers g ! k < different_consumers g ! Suc k) \<and>
     resorted_member_lists g ! nat (resorted_member_lists_pos g - 1) = n - 1 \<and>
     1 \<le> recount_member g \<and> length sizes = nat (recount_member g) \<and>
     (\<forall>k < nat (recount_member g). 1 \<le> sizes ! k \<and>
        (\<forall>c. 0 \<le> c \<and> c < sizes ! k \<longrightarrow>
           0 \<le> different_consumers g ! k + 1 + c \<and>
           different_consumers g ! k + 1 + c < resorted_member_lists_pos g)) \<and>
     (\<forall>md. \<exists>ms'. distribute_loop g sizes md 0
        \<lparr> next_group = - 1,
          next_in_member_group = replicate (nat (recount_member g)) (- 1) \<rparr> ms = Inr ms')"
proof -
  obtain g where g: "replica_grouper cls ms n = Inr g" "grouper_ok n g"
    using replica_grouper_ok [OF assms] by blast
  have inc: "\<forall>k < nat (recount_member g).
        different_consumers g ! k < different_consumers g ! Suc k"
    using g(2) by (simp add: grouper_ok_def)
  have last: "resorted_member_lists g ! nat (resorted_member_lists_pos g - 1) = n - 1"
    using g(2) by (simp add: grouper_ok_def)
  have groups: "1 \<le> recount_member g"
    using g(2) by (simp add: grouper_ok_def)
  have len: "length (group_sizes g) = nat (recount_member g)"
    by (simp add: group_sizes_def)
  have sizes: "\<forall>k < nat (recount_member g). 1 \<le> group_sizes g ! k \<and>
        (\<forall>c. 0 \<le> c \<and> c < group_sizes g ! k \<longrightarrow>
           0 \<le> different_consumers g ! k + 1 + c \<and>
           different_consumers g ! k + 1 + c < resorted_member_lists_pos g)"
  proof (intro allI impI conjI)
    fix k assume k: "k < nat (recount_member g)"
    then have eq: "group_sizes g ! k = group_size g k"
      by (simp add: group_sizes_def)
    show "1 \<le> group_sizes g ! k"
      unfolding eq by (rule group_size_pos [OF g(2) k])
    fix c assume "0 \<le> c \<and> c < group_sizes g ! k"
    then have c: "0 \<le> c" "c < group_size g k" using eq by simp_all
    show "0 \<le> different_consumers g ! k + 1 + c"
      by (rule retained_index_bounds(1) [OF g(2) k c])
    show "different_consumers g ! k + 1 + c < resorted_member_lists_pos g"
      by (rule retained_index_bounds(2) [OF g(2) k c])
  qed
  have loop: "\<forall>md. \<exists>ms'. distribute_loop g (group_sizes g) md 0
        \<lparr> next_group = - 1,
          next_in_member_group = replicate (nat (recount_member g)) (- 1) \<rparr> ms = Inr ms'"
  proof
    fix md
    have "distribute_loop g (group_sizes g) md (int 0)
        \<lparr> next_group = - 1,
          next_in_member_group = replicate (nat (recount_member g)) (- 1) \<rparr> ms =
        Inr (deal (selected g) (topic md) [0..<nat (partition_cnt md)] ms)"
      by (rule distribute_loop_ok [OF g(2) assms(2) cursors_inv_init [OF g(2)] refl])
    then show "\<exists>ms'. distribute_loop g (group_sizes g) md 0
        \<lparr> next_group = - 1,
          next_in_member_group = replicate (nat (recount_member g)) (- 1) \<rparr> ms = Inr ms'"
      by simp
  qed
  show ?thesis
    apply (rule exI [of _ g])
    apply (rule exI [of _ "group_sizes g"])
    apply (intro conjI)
           apply (rule g(1))
          apply (rule sizeof_loop_ok [OF g(2)])
         apply (rule inc)
        apply (rule last)
       apply (rule groups)
      apply (rule len)
     apply (rule sizes)
    apply (rule loop)
    done
qed

text \<open>The hypotheses of C10 hold in scenario B of the spec.\<close>

theorem grouper_safety_witness:
  "(1::int) \<le> 3 \<and> (3::int) \<le> int (length scenario_B_members) \<and>
   (\<exists>g sizes. replica_grouper scenario_B_classify scenario_B_members 3 = Inr g \<and>
     sizeof_loop g 0 (replicate (nat (recount_member g)) 0) = Inr sizes \<and>
     (\<forall>k < nat (recount_member g).
        different_consumers g ! k < different_consumers g ! Suc k) \<and>
     resorted_member_lists g ! nat (resorted_member_lists_pos g - 1) = 3 - 1 \<and>
     1 \<le> recount_member g \<and> length sizes = nat (recount_member g) \<and>
     (\<forall>k < nat (recount_member g). 1 \<le> sizes ! k \<and>
        (\<forall>c. 0 \<le> c \<and> c < sizes ! k \<longrightarrow>
           0 \<le> different_consumers g ! k + 1 + c \<and>
           different_consumers g ! k + 1 + c < resorted_member_lists_pos g)) \<and>
     (\<forall>md. \<exists>ms'. distribute_loop g sizes md 0
        \<lparr> next_group = - 1,
          next_in_member_group = replicate (nat (recount_member g)) (- 1) \<rparr>
        scenario_B_members = Inr ms'))"
proof -
  have h: "(1::int) \<le> 3" "(3::int) \<le> int (length scenario_B_members)"
    by (simp_all add: scenario_B_members_def)
  show ?thesis
    by (intro conjI h) (rule grouper_safety [OF h])
qed

subsection \<open>Fairness\<close>

lemma slot_eq_iff:
  assumes ok: "grouper_ok n g" and k: "k < nat (recount_member g)"
    and c: "c < nat (group_size g k)"
  shows "slot g p = different_consumers g ! k + 1 + int c \<longleftrightarrow>
     p mod nat (recount_member g) = k \<and>
     (p div nat (recount_member g)) mod nat (group_size g k) = c"
proof
  let ?G = "nat (recount_member g)"
  let ?k' = "p mod ?G"
  assume eq: "slot g p = different_consumers g ! k + 1 + int c"
  have G: "0 < ?G" using k by simp
  then have k': "?k' < ?G" by simp
  have b: "different_consumers g ! ?k' < slot g p"
    "slot g p \<le> different_consumers g ! Suc ?k'"
    using slot_bounds(1,2) [OF ok, of p] by simp_all
  have b': "different_consumers g ! k < slot g p"
    "slot g p \<le> different_consumers g ! Suc k"
    using eq c by (simp_all add: group_size_def)
  have same: "?k' = k"
  proof (rule ccontr)
    assume "?k' \<noteq> k"
    then consider "Suc ?k' \<le> k" | "Suc k \<le> ?k'" by linarith
    then show False
    proof cases
      case 1
      have "different_consumers g ! Suc ?k' \<le> different_consumers g ! k"
        using dc_mono [OF ok _ 1] k by simp
      then show False using b(2) b'(1) by simp
    next
      case 2
      have "different_consumers g ! Suc k \<le> different_consumers g ! ?k'"
        using dc_mono [OF ok _ 2] k' by simp
      then show False using b(1) b'(2) by simp
    qed
  qed
  have sz: "1 \<le> group_size g k" by (rule group_size_pos [OF ok k])
  then have szn: "group_size g k = int (nat (group_size g k))" by simp
  have "int (p div ?G) mod group_size g k = int c"
    using eq same by (simp add: slot_def Let_def)
  then have "int ((p div ?G) mod nat (group_size g k)) = int c"
    by (subst (asm) szn) (simp add: zmod_int)
  then show "?k' = k \<and> (p div ?G) mod nat (group_size g k) = c"
    using same by simp
next
  let ?G = "nat (recount_member g)"
  assume a: "p mod ?G = k \<and> (p div ?G) mod nat (group_size g k) = c"
  have sz: "1 \<le> group_size g k" by (rule group_size_pos [OF ok k])
  then have szn: "group_size g k = int (nat (group_size g k))" by simp
  have "int (p div ?G) mod group_size g k = int ((p div ?G) mod nat (group_size g k))"
    by (subst szn) (simp add: zmod_int)
  then show "slot g p = different_consumers g ! k + 1 + int c"
    using a by (simp add: slot_def Let_def)
qed

lemma two_level:
  assumes "k < G" "c < S"
  shows "(p::nat) mod G = k \<and> (p div G) mod S = c \<longleftrightarrow> p mod (G * S) = k + G * c"
proof
  assume "p mod G = k \<and> (p div G) mod S = c"
  then show "p mod (G * S) = k + G * c"
    using mod_mult2_eq [of p G S] by simp
next
  assume a: "p mod (G * S) = k + G * c"
  then have e: "G * (p div G mod S) + p mod G = k + G * c"
    using mod_mult2_eq [of p G S] by simp
  have G: "0 < G" using assms(1) by simp
  have "(G * (p div G mod S) + p mod G) mod G = (k + G * c) mod G"
    using e by simp
  then have k: "p mod G = k" using assms(1) by simp
  then have "G * (p div G mod S) = G * c" using e by simp
  then have "p div G mod S = c" using G by simp
  then show "p mod G = k \<and> (p div G) mod S = c" using k by simp
qed

lemma two_level_bound:
  assumes "k < G" "c < S"
  shows "k + G * c < G * (S::nat)"
proof -
  have "k + G * c < G * Suc c" using assms(1) by simp
  also have "\<dots> \<le> G * S" using assms(2) by (intro mult_le_mono2) simp
  finally show ?thesis .
qed

lemma received_deal:
  assumes "0 \<le> i" "i < int (length ms)"
  shows "received ms (deal sel t ps ms) i = int (length (filter (\<lambda>p. nat (sel p) = nat i) ps))"
proof -
  have "nat i < length ms" using assms by linarith
  then show ?thesis by (simp add: received_def deal_nth)
qed

lemma received_member:
  assumes ok: "grouper_ok n g" and n: "n \<le> int (length ms)"
    and k: "k < nat (recount_member g)" and c: "c < nat (group_size g k)"
  shows "received ms (deal (selected g) t [0..<P] ms)
       (resorted_member_lists g ! nat (different_consumers g ! k + 1 + int c)) =
     int (length (filter (\<lambda>p. p mod nat (recount_member g) = k \<and>
        (p div nat (recount_member g)) mod nat (group_size g k) = c) [0..<P]))"
proof -
  let ?s = "different_consumers g ! k + 1 + int c"
  let ?i = "resorted_member_lists g ! nat ?s"
  have cb: "0 \<le> int c" "int c < group_size g k" using c by simp_all
  have sb: "0 \<le> ?s" "?s < resorted_member_lists_pos g"
    using retained_index_bounds [OF ok k cb] by simp_all
  then have sn: "nat ?s < nat (resorted_member_lists_pos g)" by simp
  have ib: "0 \<le> ?i" "?i < n"
    using ok sn by (simp_all add: grouper_ok_def)
  have iff: "nat (selected g p) = nat ?i \<longleftrightarrow>
      p mod nat (recount_member g) = k \<and>
      (p div nat (recount_member g)) mod nat (group_size g k) = c" for p
  proof -
    have pn: "nat (slot g p) < nat (resorted_member_lists_pos g)"
      using slot_bounds(3,4) [OF ok, of p] by simp
    have "nat (selected g p) = nat ?i \<longleftrightarrow> selected g p = ?i"
      using selected_bounds(1) [OF ok, of p] ib(1) by auto
    also have "\<dots> \<longleftrightarrow> nat (slot g p) = nat ?s"
      using rs_inj [OF ok pn sn] by (auto simp: selected_def)
    also have "\<dots> \<longleftrightarrow> slot g p = ?s"
      using slot_bounds(3) [OF ok, of p] sb(1) by auto
    also have "\<dots> \<longleftrightarrow> p mod nat (recount_member g) = k \<and>
      (p div nat (recount_member g)) mod nat (group_size g k) = c"
      by (rule slot_eq_iff [OF ok k c])
    finally show ?thesis .
  qed
  have "received ms (deal (selected g) t [0..<P] ms) ?i =
      int (length (filter (\<lambda>p. nat (selected g p) = nat ?i) [0..<P]))"
    using ib n by (intro received_deal) simp_all
  then show ?thesis by (simp only: iff)
qed

lemma received_member_served:
  assumes ok: "grouper_ok n g" and n: "n \<le> int (length ms)"
    and k: "k < nat (recount_member g)" and c: "c < nat (group_size g k)"
  shows "received ms (deal (selected g) t [0..<P] ms)
       (resorted_member_lists g ! nat (different_consumers g ! k + 1 + int c)) =
     int (served (nat (recount_member g) * nat (group_size g k))
            (k + nat (recount_member g) * c) P)"
  by (simp add: received_member [OF ok n k c] two_level [OF k c] served_def)

lemma served_close:
  assumes "a < m" "b < m"
  shows "\<bar>int (served m a P) - int (served m b P)\<bar> \<le> 1"
  by (simp add: served_eq [OF assms(1)] served_eq [OF assms(2)])

lemma sum_list_indicator:
  "sum_list (map (\<lambda>c. if a = c then 1 else 0) [0..<S]) = (if a < S then 1 else (0::int))"
  by (induction S) auto

lemma filter_classes:
  assumes "\<forall>x \<in> set xs. f x < S"
  shows "sum_list (map (\<lambda>c. int (length (filter (\<lambda>x. A x \<and> f x = c) xs))) [0..<S]) =
     int (length (filter A xs))"
  using assms
proof (induction xs)
  case Nil
  then show ?case by (induction S) simp_all
next
  case (Cons x xs)
  have split: "(\<lambda>c. int (length (filter (\<lambda>x. A x \<and> f x = c) (x # xs)))) =
      (\<lambda>c. (if A x then (if f x = c then 1 else 0) else 0) +
         int (length (filter (\<lambda>x. A x \<and> f x = c) xs)))"
    by auto
  have fx: "f x < S" using Cons.prems by simp
  have "sum_list (map (\<lambda>c. int (length (filter (\<lambda>x. A x \<and> f x = c) (x # xs)))) [0..<S]) =
      sum_list (map (\<lambda>c. if A x then (if f x = c then 1 else 0) else 0) [0..<S]) +
      sum_list (map (\<lambda>c. int (length (filter (\<lambda>x. A x \<and> f x = c) xs))) [0..<S])"
    unfolding split by (rule sum_list_addf)
  also have "sum_list (map (\<lambda>c. if A x then (if f x = c then 1 else 0) else 0) [0..<S]) =
      (if A x then 1 else (0::int))"
  proof (cases "A x")
    case True
    then show ?thesis using sum_list_indicator [of "f x" S] fx by simp
  next
    case False
    then show ?thesis by (induction S) simp_all
  qed
  also have "sum_list (map (\<lambda>c. int (length (filter (\<lambda>x. A x \<and> f x = c) xs))) [0..<S]) =
      int (length (filter A xs))"
    using Cons by simp
  finally show ?case by simp
qed

lemma group_received_served:
  assumes ok: "grouper_ok n g" and n: "n \<le> int (length ms)"
    and k: "k < nat (recount_member g)"
  shows "group_received g ms (deal (selected g) t [0..<P] ms) k =
     int (served (nat (recount_member g)) k P)"
proof -
  let ?G = "nat (recount_member g)"
  let ?S = "nat (group_size g k)"
  have S: "0 < ?S" using group_size_pos [OF ok k] by simp
  have "map (received ms (deal (selected g) t [0..<P] ms)) (group_members g k) =
      map (\<lambda>c. int (length (filter (\<lambda>p. p mod ?G = k \<and> (p div ?G) mod ?S = c) [0..<P])))
        [0..<?S]"
    unfolding group_members_def map_map
  proof (rule map_cong [OF refl])
    fix c assume "c \<in> set [0..<?S]"
    then have c: "c < ?S" by simp
    show "(received ms (deal (selected g) t [0..<P] ms) \<circ>
         (\<lambda>c. resorted_member_lists g ! nat (different_consumers g ! k + 1 + int c))) c =
       int (length (filter (\<lambda>p. p mod ?G = k \<and> (p div ?G) mod ?S = c) [0..<P]))"
      using received_member [OF ok n k c] by simp
  qed
  then have "group_received g ms (deal (selected g) t [0..<P] ms) k =
      sum_list (map (\<lambda>c. int (length
        (filter (\<lambda>p. p mod ?G = k \<and> (p div ?G) mod ?S = c) [0..<P]))) [0..<?S])"
    by (simp only: group_received_def)
  also have "\<dots> = int (length (filter (\<lambda>p. p mod ?G = k) [0..<P]))"
    using S by (intro filter_classes) simp
  finally show ?thesis by (simp add: served_def)
qed

text \<open>
  Claim C2. For a topic with at least one eligible member, the numbers of partitions
  that two groups receive differ by at most 1. The partitions a group receives are
  those added to its members, the members
  \<^verbatim>\<open>resorted_member_lists[different_consumers[k] + 1 + c]\<close> for the positions \<open>c\<close>
  below the size of the group.
\<close>

theorem group_fairness:
  assumes "members et \<noteq> []" "length (members et) \<le> length ms"
  shows "\<exists>g ms'. replica_grouper cls (qsort_members ms) (int (length (members et))) = Inr g \<and>
     assign_topic cls ms et = Inr ms' \<and>
     (\<forall>a < nat (recount_member g). \<forall>b < nat (recount_member g).
        \<bar>group_received g (qsort_members ms) ms' a -
         group_received g (qsort_members ms) ms' b\<bar> \<le> 1)"
proof -
  let ?n = "int (length (members et))"
  let ?P = "nat (partition_cnt (metadata et))"
  obtain g where g: "replica_grouper cls (qsort_members ms) ?n = Inr g" "grouper_ok ?n g"
    "assign_topic cls ms et =
       Inr (deal (selected g) (topic (metadata et)) [0..<?P] (qsort_members ms))"
    using assign_topic_ok [OF assms] by blast
  let ?ms' = "deal (selected g) (topic (metadata et)) [0..<?P] (qsort_members ms)"
  have n: "?n \<le> int (length (qsort_members ms))"
    using assms(2) by (simp add: length_qsort_members)
  have fair: "\<forall>a < nat (recount_member g). \<forall>b < nat (recount_member g).
        \<bar>group_received g (qsort_members ms) ?ms' a -
         group_received g (qsort_members ms) ?ms' b\<bar> \<le> 1"
  proof (intro allI impI)
    fix a b assume a: "a < nat (recount_member g)" and b: "b < nat (recount_member g)"
    show "\<bar>group_received g (qsort_members ms) ?ms' a -
         group_received g (qsort_members ms) ?ms' b\<bar> \<le> 1"
      unfolding group_received_served [OF g(2) n a] group_received_served [OF g(2) n b]
      by (rule served_close [OF a b])
  qed
  show ?thesis
    apply (rule exI [of _ g])
    apply (rule exI [of _ ?ms'])
    apply (intro conjI)
      apply (rule g(1))
     apply (rule g(3))
    apply (rule fair)
    done
qed

text \<open>The hypotheses of C2 hold in scenario B of the spec.\<close>

theorem group_fairness_witness:
  "members scenario_B_topic \<noteq> [] \<and>
   length (members scenario_B_topic) \<le> length scenario_B_members \<and>
   (\<exists>g ms'. replica_grouper scenario_B_classify (qsort_members scenario_B_members)
        (int (length (members scenario_B_topic))) = Inr g \<and>
     assign_topic scenario_B_classify scenario_B_members scenario_B_topic = Inr ms' \<and>
     (\<forall>a < nat (recount_member g). \<forall>b < nat (recount_member g).
        \<bar>group_received g (qsort_members scenario_B_members) ms' a -
         group_received g (qsort_members scenario_B_members) ms' b\<bar> \<le> 1))"
proof -
  have h: "members scenario_B_topic \<noteq> []"
    "length (members scenario_B_topic) \<le> length scenario_B_members"
    by (simp_all add: scenario_B_topic_def scenario_B_members_def)
  show ?thesis
    by (intro conjI h) (rule group_fairness [OF h])
qed

text \<open>
  Claim C3. For a topic with at least one eligible member and every group of it, the
  numbers of partitions that two members of the group receive differ by at most 1.
\<close>

theorem within_group_fairness:
  assumes "members et \<noteq> []" "length (members et) \<le> length ms"
  shows "\<exists>g ms'. replica_grouper cls (qsort_members ms) (int (length (members et))) = Inr g \<and>
     assign_topic cls ms et = Inr ms' \<and>
     (\<forall>k < nat (recount_member g).
        \<forall>a \<in> set (group_members g k). \<forall>b \<in> set (group_members g k).
          \<bar>received (qsort_members ms) ms' a - received (qsort_members ms) ms' b\<bar> \<le> 1)"
proof -
  let ?n = "int (length (members et))"
  let ?P = "nat (partition_cnt (metadata et))"
  obtain g where g: "replica_grouper cls (qsort_members ms) ?n = Inr g" "grouper_ok ?n g"
    "assign_topic cls ms et =
       Inr (deal (selected g) (topic (metadata et)) [0..<?P] (qsort_members ms))"
    using assign_topic_ok [OF assms] by blast
  let ?ms' = "deal (selected g) (topic (metadata et)) [0..<?P] (qsort_members ms)"
  have n: "?n \<le> int (length (qsort_members ms))"
    using assms(2) by (simp add: length_qsort_members)
  have fair: "\<forall>k < nat (recount_member g).
        \<forall>a \<in> set (group_members g k). \<forall>b \<in> set (group_members g k).
          \<bar>received (qsort_members ms) ?ms' a - received (qsort_members ms) ?ms' b\<bar> \<le> 1"
  proof (intro allI impI ballI)
    fix k a b
    assume k: "k < nat (recount_member g)"
      and a: "a \<in> set (group_members g k)" and b: "b \<in> set (group_members g k)"
    let ?G = "nat (recount_member g)"
    let ?S = "nat (group_size g k)"
    obtain ca where ca: "ca < ?S"
      "a = resorted_member_lists g ! nat (different_consumers g ! k + 1 + int ca)"
      using a by (auto simp: group_members_def)
    obtain cb where cb: "cb < ?S"
      "b = resorted_member_lists g ! nat (different_consumers g ! k + 1 + int cb)"
      using b by (auto simp: group_members_def)
    show "\<bar>received (qsort_members ms) ?ms' a - received (qsort_members ms) ?ms' b\<bar> \<le> 1"
      unfolding ca(2) cb(2)
        received_member_served [OF g(2) n k ca(1)] received_member_served [OF g(2) n k cb(1)]
      by (rule served_close [OF two_level_bound [OF k ca(1)] two_level_bound [OF k cb(1)]])
  qed
  show ?thesis
    apply (rule exI [of _ g])
    apply (rule exI [of _ ?ms'])
    apply (intro conjI)
      apply (rule g(1))
     apply (rule g(3))
    apply (rule fair)
    done
qed

text \<open>The hypotheses of C3 hold in scenario B of the spec.\<close>

theorem within_group_fairness_witness:
  "members scenario_B_topic \<noteq> [] \<and>
   length (members scenario_B_topic) \<le> length scenario_B_members \<and>
   (\<exists>g ms'. replica_grouper scenario_B_classify (qsort_members scenario_B_members)
        (int (length (members scenario_B_topic))) = Inr g \<and>
     assign_topic scenario_B_classify scenario_B_members scenario_B_topic = Inr ms' \<and>
     (\<forall>k < nat (recount_member g).
        \<forall>a \<in> set (group_members g k). \<forall>b \<in> set (group_members g k).
          \<bar>received (qsort_members scenario_B_members) ms' a -
           received (qsort_members scenario_B_members) ms' b\<bar> \<le> 1))"
proof -
  have h: "members scenario_B_topic \<noteq> []"
    "length (members scenario_B_topic) \<le> length scenario_B_members"
    by (simp_all add: scenario_B_topic_def scenario_B_members_def)
  show ?thesis
    by (intro conjI h) (rule within_group_fairness [OF h])
qed

subsection \<open>No replicas\<close>

lemma grouper_init_distinct:
  "1 \<le> n \<Longrightarrow> \<exists>g. grouper_init n = Inr g \<and> distinct_inv n 0 g"
  by (simp add: grouper_init_def arr_set_Inr distinct_inv_def)

lemma grouper_switch_distinct:
  assumes "distinct_inv n i g" "0 \<le> i" "i < n - 1"
  shows "\<exists>g'. grouper_switch 0 i g = Inr g' \<and> distinct_inv n (i + 1) g'"
proof -
  obtain I where I: "i = int I" using assms(2) by (metis nonneg_int_cases)
  have RQ: "recount_member g = int (Suc I)" "resorted_member_lists_pos g = int I"
    using assms(1) I by (simp_all add: distinct_inv_def)
  have len: "Suc I < length (different_consumers g)" "I < length (resorted_member_lists g)"
    using assms I by (auto simp: distinct_inv_def)
  have b: "int (Suc I) < int (length (different_consumers g))"
    "int I < int (length (resorted_member_lists g))"
    using len by linarith+
  have suc': "nat (1 + int I) = Suc I" by simp
  have w1: "arr_set (different_consumers g) (1 + int I) (int I) =
      Inr ((different_consumers g)[Suc I := int I])"
    using b(1) by (simp add: arr_set_def suc')
  have w2: "arr_set (resorted_member_lists g) (int I) (int I) =
      Inr ((resorted_member_lists g)[I := int I])"
    using b(2) by (simp add: arr_set_def)
  have suc: "nat (int I + 1) = Suc I" by simp
  show ?thesis
    using assms(1) len
    unfolding grouper_switch_def RQ I
    by (simp add: w1 w2 distinct_inv_def nth_list_update suc suc' le_Suc_eq less_Suc_eq)
qed

lemma grouper_loop_distinct:
  "distinct_inv n i g \<Longrightarrow> 0 \<le> i \<Longrightarrow> i \<le> n - 1 \<Longrightarrow> n \<le> int (length ms) \<Longrightarrow>
   (\<forall>j. Suc j < nat n \<longrightarrow> cls (rkgm_member_id (ms ! j)) (rkgm_member_id (ms ! Suc j)) = 0) \<Longrightarrow>
     \<exists>g'. grouper_loop cls ms n i g = Inr g' \<and> distinct_inv n (n - 1) g'"
proof (induction cls ms n i g rule: grouper_loop.induct)
  case (1 cls ms n i g)
  show ?case
  proof (cases "i < n - 1")
    case True
    have "Suc (nat i) < nat n" using True "1.prems"(2) by linarith
    then have z: "cls (rkgm_member_id (ms ! nat i)) (rkgm_member_id (ms ! Suc (nat i))) = 0"
      using "1.prems"(5) by blast
    have si: "nat (i + 1) = Suc (nat i)" using "1.prems"(2) by linarith
    from grouper_switch_distinct [OF "1.prems"(1,2) True]
    obtain g' where g': "grouper_switch 0 i g = Inr g'" "distinct_inv n (i + 1) g'"
      by blast
    have rd: "arr_get ms i = Inr (ms ! nat i)" "arr_get ms (i + 1) = Inr (ms ! nat (i + 1))"
      using True "1.prems" by (simp_all add: arr_get_Inr)
    have body: "fbind (arr_get ms i) (\<lambda>a. fbind (arr_get ms (i + 1)) (\<lambda>b.
        grouper_switch (cls (rkgm_member_id a) (rkgm_member_id b)) i g)) = Inr g'"
      using rd g'(1) z si by simp
    have "\<exists>g''. grouper_loop cls ms n (i + 1) g' = Inr g'' \<and> distinct_inv n (n - 1) g''"
      using "1.IH" [OF True body g'(2)] True "1.prems" by simp
    then show ?thesis
      using True body by (subst grouper_loop.simps) simp
  next
    case False
    with "1.prems" have "i = n - 1" by simp
    then show ?thesis
      using "1.prems"(1) by (subst grouper_loop.simps) simp
  qed
qed

lemma grouper_close_distinct:
  assumes "distinct_inv n (n - 1) g" "1 \<le> n"
  shows "\<exists>g'. grouper_close n g = Inr g' \<and> recount_member g' = n \<and>
     (\<forall>k \<le> nat n. different_consumers g' ! k = int k - 1) \<and>
     (\<forall>k < nat n. resorted_member_lists g' ! k = int k)"
proof -
  obtain N where N: "n = int (Suc N)"
    using assms(2) by (intro that [of "nat (n - 1)"]) simp
  have RQ: "recount_member g = int (Suc N)" "resorted_member_lists_pos g = int N"
    using assms(1) N by (simp_all add: distinct_inv_def)
  have len: "Suc N < length (different_consumers g)" "N < length (resorted_member_lists g)"
    using assms N by (auto simp: distinct_inv_def)
  have b: "int (Suc N) < int (length (different_consumers g))"
    "int N < int (length (resorted_member_lists g))"
    using len by linarith+
  have suc': "nat (1 + int N) = Suc N" by simp
  have w1: "arr_set (different_consumers g) (1 + int N) (int N) =
      Inr ((different_consumers g)[Suc N := int N])"
    using b(1) by (simp add: arr_set_def suc')
  have w2: "arr_set (resorted_member_lists g) (int N) (int N) =
      Inr ((resorted_member_lists g)[N := int N])"
    using b(2) by (simp add: arr_set_def)
  have inv: "\<forall>k \<le> N. different_consumers g ! k = int k - 1"
    "\<forall>k < N. resorted_member_lists g ! k = int k"
    using assms(1) N by (simp_all add: distinct_inv_def)
  show ?thesis
    using inv len
    unfolding grouper_close_def RQ N
    by (simp add: w1 w2 nth_list_update le_Suc_eq less_Suc_eq RQ suc')
qed

lemma replica_grouper_distinct:
  assumes "1 \<le> n" "n \<le> int (length ms)"
    and "\<forall>j. Suc j < nat n \<longrightarrow> cls (rkgm_member_id (ms ! j)) (rkgm_member_id (ms ! Suc j)) = 0"
  shows "\<exists>g. replica_grouper cls ms n = Inr g \<and> recount_member g = n \<and>
     (\<forall>k \<le> nat n. different_consumers g ! k = int k - 1) \<and>
     (\<forall>k < nat n. resorted_member_lists g ! k = int k)"
proof -
  obtain g0 where g0: "grouper_init n = Inr g0" "distinct_inv n 0 g0"
    using grouper_init_distinct [OF assms(1)] by blast
  obtain g1 where g1: "grouper_loop cls ms n 0 g0 = Inr g1" "distinct_inv n (n - 1) g1"
    using grouper_loop_distinct [OF g0(2) _ _ assms(2,3)] assms(1) by auto
  show ?thesis
    using grouper_close_distinct [OF g1(2) assms(1)] g0(1) g1(1)
    by (simp add: replica_grouper_def)
qed

lemma selected_distinct:
  assumes n: "0 < n" and rc: "recount_member g = int n"
    and dc: "\<forall>k \<le> n. different_consumers g ! k = int k - 1"
    and rs: "\<forall>k < n. resorted_member_lists g ! k = int k"
  shows "selected g p = int (p mod n)"
proof -
  have k: "p mod n < n" using n by simp
  then have "group_size g (p mod n) = 1"
    using dc by (simp add: group_size_def)
  then have "slot g p = int (p mod n)"
    using dc k rc by (simp add: slot_def Let_def)
  then show ?thesis using rs k by (simp add: selected_def)
qed

lemma no_replicas_topic:
  assumes "members et \<noteq> []" "length (members et) \<le> length ms"
    and "\<forall>i. Suc i < length (members et) \<longrightarrow>
           cls (rkgm_member_id (qsort_members ms ! i))
               (rkgm_member_id (qsort_members ms ! Suc i)) = 0"
  shows "assign_topic cls ms et =
     Inr (deal_by_position (qsort_members ms) (length (members et)) (topic (metadata et))
            (nat (partition_cnt (metadata et))))"
proof -
  let ?n = "length (members et)"
  let ?P = "nat (partition_cnt (metadata et))"
  let ?ms = "qsort_members ms"
  obtain g where g: "replica_grouper cls ?ms (int ?n) = Inr g"
    "assign_topic cls ms et = Inr (deal (selected g) (topic (metadata et)) [0..<?P] ?ms)"
    using assign_topic_ok [OF assms(1,2)] by blast
  have n: "1 \<le> int ?n" "int ?n \<le> int (length ?ms)" "0 < ?n"
    using assms(1,2) by (simp_all add: length_qsort_members Suc_le_eq)
  have z: "\<forall>j. Suc j < nat (int ?n) \<longrightarrow>
      cls (rkgm_member_id (?ms ! j)) (rkgm_member_id (?ms ! Suc j)) = 0"
    using assms(3) by simp
  obtain g' where g': "replica_grouper cls ?ms (int ?n) = Inr g'" "recount_member g' = int ?n"
    "\<forall>k \<le> nat (int ?n). different_consumers g' ! k = int k - 1"
    "\<forall>k < nat (int ?n). resorted_member_lists g' ! k = int k"
    using replica_grouper_distinct [OF n(1,2) z] by blast
  have same: "g' = g" using g(1) g'(1) by simp
  have sel: "selected g p = int (p mod ?n)" for p
    using selected_distinct [OF n(3) g'(2), of p] g'(3,4) same by simp
  have "deal (selected g) (topic (metadata et)) [0..<?P] ?ms =
      deal_by_position ?ms ?n (topic (metadata et)) ?P"
    by (simp add: deal_def deal_by_position_def sel)
  then show ?thesis using g(2) by simp
qed

lemma qsort_two_members: "qsort_members two_members = two_members"
  by code_simp

subsection \<open>The eligible members of a topic\<close>

text \<open>
  Claim C5 fails on the code. The loop takes the number of the topic's eligible
  members from the topic's list (line 75) and then indexes the whole sorted member
  array with it (lines 88 and 134): the members grouped and assigned are the first
  \<open>n\<close> of the sorted array, eligible or not. Here the one partition of t goes to
  C0, which does not subscribe to t and is not in the topic's list, and C1, the only
  eligible member, receives nothing.
\<close>

theorem partition_assigned_outside_eligible_list:
  "rd_kafka_doubleroundrobin_assignor_assign_cb (\<lambda>a b. 0) c0_unsubscribed [topic_t_of_c1] [] =
     Inr (0, [],
       [\<lparr> rkgm_member_id = ''C0'', rkgm_subscription = [''u''], rkgm_assignment = [(''t'', 0)] \<rparr>,
        \<lparr> rkgm_member_id = ''C1'', rkgm_subscription = [''t''], rkgm_assignment = [] \<rparr>])"
  by code_simp

subsection \<open>A topic without eligible members\<close>

text \<open>
  Claim C6 as stated fails: on a topic u with no eligible member (and 4 partitions)
  the pass does not complete as a no-op; the write of line 102 leaves the one-cell array
  \<^verbatim>\<open>different_consumers\<close>.
\<close>

theorem no_eligible_member_counterexample:
  "rd_kafka_doubleroundrobin_assignor_assign_cb scenario_B_classify scenario_B_members
     [\<lparr> metadata = \<lparr> topic = ''u'', partition_cnt = 4 \<rparr>, members = [] \<rparr>] [] =
   Inl OutOfBounds"
  by code_simp

text \<open>
  Claim C6, amended. The function has no guard for a topic without eligible members;
  it relies on the caller never passing one. On such a topic the grouper still runs:
  with \<^verbatim>\<open>member_cnt = 0\<close> the arrays have one cell, \<^verbatim>\<open>recount_member\<close> is 1, and the
  write \<^verbatim>\<open>different_consumers[recount_member] = ...\<close> of line 102 is outside the
  array, whatever the classification, the member array and the partition count.
\<close>

theorem no_eligible_member_fault:
  "assign_topic cls ms \<lparr> metadata = md, members = [] \<rparr> = Inl OutOfBounds"
proof -
  have "grouper_init 0 = Inr \<lparr> different_consumers = [- 1], recount_member = 1,
      resorted_member_lists = [0], resorted_member_lists_pos = 0 \<rparr>"
    by (simp add: grouper_init_def arr_set_def)
  moreover have "grouper_loop cls (qsort_members ms) 0 0 g = Inr g" for g
    by (subst grouper_loop.simps) simp
  ultimately have "replica_grouper cls (qsort_members ms) 0 = Inl OutOfBounds"
    by (simp add: replica_grouper_def grouper_close_def arr_set_def)
  then show ?thesis
    by (simp add: assign_topic_def)
qed

subsection \<open>Errors\<close>

lemma malformed_count_run:
  "rd_kafka_doubleroundrobin_assignor_assign_cb (\<lambda>a b. 0) one_member
     [topic_t0_one, topic_t1_malformed] [] =
   Inr (0, [],
     [\<lparr> rkgm_member_id = ''C0'', rkgm_subscription = [''t0'', ''t1''],
         rkgm_assignment = [(''t0'', 0)] \<rparr>])"
  by code_simp

lemma fbind_eq_Inr: "fbind m f = Inr y \<longleftrightarrow> (\<exists>x. m = Inr x \<and> f x = Inr y)"
  by (cases m) simp_all

lemma assign_topic_no_partitions:
  assumes "members et \<noteq> []" "length (members et) \<le> length ms"
    "partition_cnt (metadata et) \<le> 0"
  shows "assign_topic cls ms et = Inr (qsort_members ms)"
proof -
  obtain g where "assign_topic cls ms et =
       Inr (deal (selected g) (topic (metadata et)) [0..<nat (partition_cnt (metadata et))]
              (qsort_members ms))"
    using assign_topic_ok [OF assms(1,2)] by blast
  then show ?thesis using assms(3) by (simp add: deal_Nil)
qed

text \<open>
  Claim C7 as stated fails: with a malformed (negative) partition count for the
  eligible topic t1 the entry point reports no error; it returns the code 0, leaves
  the error string as it was, and the assignment of the other topic is emitted.
\<close>

theorem malformed_metadata_counterexample:
  "rd_kafka_doubleroundrobin_assignor_assign_cb (\<lambda>a b. 0) one_member
     [topic_t0_one, topic_t1_malformed] [] =
   Inr (0, [],
     [\<lparr> rkgm_member_id = ''C0'', rkgm_subscription = [''t0'', ''t1''],
         rkgm_assignment = [(''t0'', 0)] \<rparr>])"
  by (rule malformed_count_run)

text \<open>
  Claim C7, amended. The entry point checks no metadata and reports no error:
  whenever it returns, the code is 0 and the error string is the one the caller
  passed. A topic with eligible members whose partition count is zero or negative
  receives no assignment: its pass leaves the sorted member array as it is, and the
  loop goes on to the next topic.
\<close>

theorem no_error_reported:
  "(\<forall>rc e ms'. rd_kafka_doubleroundrobin_assignor_assign_cb cls ms ets errstr = Inr (rc, e, ms')
       \<longrightarrow> rc = 0 \<and> e = errstr) \<and>
   (members et \<noteq> [] \<and> length (members et) \<le> length ms \<and>
    partition_cnt (metadata et) \<le> 0 \<longrightarrow>
      assign_topic cls ms et = Inr (qsort_members ms) \<and>
      topics_loop cls (et # ets) ms = topics_loop cls ets (qsort_members ms))"
proof (intro conjI allI impI)
  fix rc e ms'
  assume "rd_kafka_doubleroundrobin_assignor_assign_cb cls ms ets errstr = Inr (rc, e, ms')"
  then show "rc = 0" "e = errstr"
    by (auto simp: rd_kafka_doubleroundrobin_assignor_assign_cb_def fbind_eq_Inr)
next
  assume a: "members et \<noteq> [] \<and> length (members et) \<le> length ms \<and>
    partition_cnt (metadata et) \<le> 0"
  then show t: "assign_topic cls ms et = Inr (qsort_members ms)"
    by (intro assign_topic_no_partitions) simp_all
  show "topics_loop cls (et # ets) ms = topics_loop cls ets (qsort_members ms)"
    by (simp add: t)
qed

text \<open>
  The hypotheses of the amended C7 hold on the run above: the entry point returns, and
  the topic t1 has an eligible member and the partition count \<open>- 1\<close>.
\<close>

theorem no_error_reported_witness:
  "rd_kafka_doubleroundrobin_assignor_assign_cb (\<lambda>a b. 0) one_member
     [topic_t0_one, topic_t1_malformed] [] =
   Inr (0, [],
     [\<lparr> rkgm_member_id = ''C0'', rkgm_subscription = [''t0'', ''t1''],
         rkgm_assignment = [(''t0'', 0)] \<rparr>]) \<and>
   members topic_t1_malformed \<noteq> [] \<and>
   length (members topic_t1_malformed) \<le> length one_member \<and>
   partition_cnt (metadata topic_t1_malformed) \<le> 0 \<and>
   assign_topic (\<lambda>a b. 0) one_member topic_t1_malformed = Inr (qsort_members one_member) \<and>
   topics_loop (\<lambda>a b. 0) [topic_t1_malformed, topic_t0_one] one_member =
     topics_loop (\<lambda>a b. 0) [topic_t0_one] (qsort_members one_member)"
proof -
  have h: "members topic_t1_malformed \<noteq> []"
    "length (members topic_t1_malformed) \<le> length one_member"
    "partition_cnt (metadata topic_t1_malformed) \<le> 0"
    by (simp_all add: topic_t1_malformed_def one_member_def)
  have "assign_topic (\<lambda>a b. 0) one_member topic_t1_malformed = Inr (qsort_members one_member) \<and>
      topics_loop (\<lambda>a b. 0) (topic_t1_malformed # [topic_t0_one]) one_member =
      topics_loop (\<lambda>a b. 0) [topic_t0_one] (qsort_members one_member)"
    using no_error_reported [of "\<lambda>a b. 0" one_member "[topic_t0_one]" "[]" topic_t1_malformed] h
    by simp
  then show ?thesis
    using malformed_count_run h by simp
qed

subsection \<open>What a call changes\<close>

lemma mset_insert_member: "mset (insert_member m xs) = add_mset m (mset xs)"
  by (induction xs) simp_all

lemma mset_qsort_members: "mset (qsort_members ms) = mset ms"
  by (induction ms) (simp_all add: qsort_members_def mset_insert_member)

lemma str_le_total: "\<not> str_le a b \<Longrightarrow> str_le b a"
  by (induction a b rule: str_le.induct) auto

lemma ids_sorted_tl: "ids_sorted (x # xs) \<Longrightarrow> ids_sorted xs"
  by (cases xs) simp_all

lemma insert_member_sorted:
  "ids_sorted (map rkgm_member_id xs) \<Longrightarrow>
     ids_sorted (map rkgm_member_id (insert_member m xs))"
  by (induction xs rule: induct_list012) (auto dest: str_le_total)

lemma qsort_members_sorted: "ids_sorted (map rkgm_member_id (qsort_members ms))"
proof (induction ms)
  case Nil
  then show ?case by (simp add: qsort_members_def)
next
  case (Cons m ms)
  then show ?case
    using insert_member_sorted [of "qsort_members ms" m] by (simp add: qsort_members_def)
qed

lemma qsort_members_fixpoint:
  "ids_sorted (map rkgm_member_id ms) \<Longrightarrow> qsort_members ms = ms"
proof (induction ms)
  case Nil
  then show ?case by (simp add: qsort_members_def)
next
  case (Cons m ms)
  then have "qsort_members ms = ms"
    using ids_sorted_tl [of "rkgm_member_id m" "map rkgm_member_id ms"] by simp
  then have "qsort_members (m # ms) = insert_member m ms"
    by (simp add: qsort_members_def)
  then show ?case using Cons.prems by (cases ms) simp_all
qed

lemma extends_refl: "extends ms ms"
proof -
  have "\<exists>ext. ms ! j = (ms ! j) \<lparr> rkgm_assignment := rkgm_assignment (ms ! j) @ ext \<rparr>" for j
    by (rule exI [of _ "[]"]) simp
  then show ?thesis by (simp add: extends_def)
qed

lemma extends_trans:
  assumes "extends a b" "extends b c"
  shows "extends a c"
proof -
  have len: "length b = length a" "length c = length a"
    using assms by (simp_all add: extends_def)
  have "\<exists>ext. c ! j = (a ! j) \<lparr> rkgm_assignment := rkgm_assignment (a ! j) @ ext \<rparr>"
    if j: "j < length a" for j
  proof -
    obtain e1 where e1: "b ! j = (a ! j) \<lparr> rkgm_assignment := rkgm_assignment (a ! j) @ e1 \<rparr>"
      using assms(1) j by (auto simp: extends_def)
    obtain e2 where e2: "c ! j = (b ! j) \<lparr> rkgm_assignment := rkgm_assignment (b ! j) @ e2 \<rparr>"
      using assms(2) j len by (auto simp: extends_def)
    show ?thesis
      by (rule exI [of _ "e1 @ e2"]) (simp add: e1 e2)
  qed
  then show ?thesis using len by (simp add: extends_def)
qed

lemma extends_add:
  assumes "i < length ms"
  shows "extends ms (ms[i := rd_kafka_topic_partition_list_add (ms ! i) t p])"
proof -
  have "\<exists>ext. ms[i := rd_kafka_topic_partition_list_add (ms ! i) t p] ! j =
      (ms ! j) \<lparr> rkgm_assignment := rkgm_assignment (ms ! j) @ ext \<rparr>"
    if j: "j < length ms" for j
  proof (cases "j = i")
    case True
    show ?thesis
      by (rule exI [of _ "[(t, p)]"])
        (simp add: True assms rd_kafka_topic_partition_list_add_def)
  next
    case False
    show ?thesis
      using False j by (intro exI [of _ "[]"]) (simp add: nth_list_update)
  qed
  then show ?thesis by (simp add: extends_def)
qed

lemma extends_ids:
  assumes "extends ms ms'"
  shows "map rkgm_member_id ms' = map rkgm_member_id ms"
proof (rule nth_equalityI)
  show "length (map rkgm_member_id ms') = length (map rkgm_member_id ms)"
    using assms by (simp add: extends_def)
next
  fix j assume "j < length (map rkgm_member_id ms')"
  then have j: "j < length ms" "j < length ms'" using assms by (simp_all add: extends_def)
  then obtain ext where
    "ms' ! j = (ms ! j) \<lparr> rkgm_assignment := rkgm_assignment (ms ! j) @ ext \<rparr>"
    using assms by (auto simp: extends_def)
  then show "map rkgm_member_id ms' ! j = map rkgm_member_id ms ! j"
    using j by simp
qed

lemma distribute_loop_extends:
  "distribute_loop g sizes md part c ms = Inr ms' \<Longrightarrow> extends ms ms'"
proof (induction g sizes md part c ms rule: distribute_loop.induct)
  case (1 g sizes md part c ms)
  show ?case
  proof (cases "part < partition_cnt md")
    case True
    let ?body = "fbind (rotate g sizes c) (\<lambda>(c', idx).
              fbind (arr_get ms idx) (\<lambda>rkgm.
              fbind (arr_set ms idx
                       (rd_kafka_topic_partition_list_add rkgm (topic md) part)) (\<lambda>ms'.
                Inr (c', ms'))))"
    from "1.prems" True obtain c' ms1 where
      body: "?body = Inr (c', ms1)" and
      rest: "distribute_loop g sizes md (part + 1) c' ms1 = Inr ms'"
      by (subst (asm) distribute_loop.simps) (auto split: sum.splits)
    from body obtain idx where idx: "0 \<le> idx" "idx < int (length ms)"
      and ms1: "ms1 = ms[nat idx := rd_kafka_topic_partition_list_add (ms ! nat idx) (topic md) part]"
      by (auto simp: fbind_eq_Inr arr_get_def arr_set_def split: if_splits)
    have "nat idx < length ms" using idx by linarith
    then have "extends ms ms1" unfolding ms1 by (rule extends_add)
    moreover have "extends ms1 ms'"
      using "1.IH" [OF True body refl rest] .
    ultimately show ?thesis by (rule extends_trans)
  next
    case False
    with "1.prems" have "ms' = ms"
      by (subst (asm) distribute_loop.simps) simp
    then show ?thesis by (simp add: extends_refl)
  qed
qed

lemma assign_topic_extends:
  "assign_topic cls ms et = Inr ms' \<Longrightarrow> extends (qsort_members ms) ms'"
  by (auto simp: assign_topic_def Let_def fbind_eq_Inr dest: distribute_loop_extends)

lemma topics_loop_extends:
  "ids_sorted (map rkgm_member_id ms) \<Longrightarrow> topics_loop cls ets ms = Inr ms' \<Longrightarrow>
     extends ms ms'"
proof (induction ets arbitrary: ms)
  case Nil
  then show ?case by (simp add: extends_refl)
next
  case (Cons et ets)
  from Cons.prems(2) obtain ms1 where
    ms1: "assign_topic cls ms et = Inr ms1" "topics_loop cls ets ms1 = Inr ms'"
    by (auto simp: fbind_eq_Inr)
  have e1: "extends ms ms1"
    using assign_topic_extends [OF ms1(1)] qsort_members_fixpoint [OF Cons.prems(1)] by simp
  have "ids_sorted (map rkgm_member_id ms1)"
    using extends_ids [OF e1] Cons.prems(1) by simp
  then have "extends ms1 ms'"
    using ms1(2) by (rule Cons.IH)
  with e1 show ?case by (rule extends_trans)
qed

lemma swapped_run:
  "rd_kafka_doubleroundrobin_assignor_assign_cb (\<lambda>a b. 0) two_members_swapped [topic_t0] [] =
     Inr (0, [], two_members_dealt)"
  by code_simp

text \<open>
  Claim C8 as stated fails: the call rearranges the member array of the caller. The
  array passed as C1, C0 is left as C0, C1 (the \<^verbatim>\<open>qsort\<close> of line 72 works in place
  on the caller's array).
\<close>

theorem member_array_reordered_counterexample:
  "rd_kafka_doubleroundrobin_assignor_assign_cb (\<lambda>a b. 0) two_members_swapped [topic_t0] [] =
     Inr (0, [], two_members_dealt) \<and>
   map rkgm_member_id two_members_swapped = [''C1'', ''C0''] \<and>
   map rkgm_member_id two_members_dealt = [''C0'', ''C1'']"
  by (simp add: swapped_run) (simp add: two_members_swapped_def two_members_dealt_def)

text \<open>
  Claim C8, amended. A call that returns has changed its inputs in two ways only.
  When there is at least one eligible topic the member array of the caller has been
  sorted in place by member id: it is a rearrangement of the array passed, left in
  the order of the ids. And assignment lists have been extended: every member of the
  (sorted) array is in the result at the same index, with its assignment extended at
  the end and every other field unchanged. With no eligible topic the array is not
  sorted. The error string is never written.
\<close>

theorem pass_frame:
  assumes "rd_kafka_doubleroundrobin_assignor_assign_cb cls ms ets errstr = Inr (rc, e, ms')"
  shows "e = errstr \<and>
     mset (if ets = [] then ms else qsort_members ms) = mset ms \<and>
     extends (if ets = [] then ms else qsort_members ms) ms' \<and>
     (ets \<noteq> [] \<longrightarrow> ids_sorted (map rkgm_member_id ms'))"
proof -
  from assms have run: "topics_loop cls ets ms = Inr ms'" and e: "e = errstr"
    by (auto simp: rd_kafka_doubleroundrobin_assignor_assign_cb_def fbind_eq_Inr)
  show ?thesis
  proof (cases ets)
    case Nil
    then show ?thesis using run e by (simp add: extends_refl)
  next
    case (Cons et rest)
    from run Cons obtain ms1 where
      ms1: "assign_topic cls ms et = Inr ms1" "topics_loop cls rest ms1 = Inr ms'"
      by (auto simp: fbind_eq_Inr)
    have e1: "extends (qsort_members ms) ms1"
      by (rule assign_topic_extends [OF ms1(1)])
    have s1: "ids_sorted (map rkgm_member_id ms1)"
      using extends_ids [OF e1] qsort_members_sorted [of ms] by simp
    have e2: "extends ms1 ms'"
      by (rule topics_loop_extends [OF s1 ms1(2)])
    have ext: "extends (qsort_members ms) ms'"
      by (rule extends_trans [OF e1 e2])
    have "ids_sorted (map rkgm_member_id ms')"
      using extends_ids [OF ext] qsort_members_sorted [of ms] by simp
    then show ?thesis
      using Cons e ext by (simp add: mset_qsort_members)
  qed
qed

text \<open>The hypothesis of the amended C8 holds on the run above.\<close>

theorem pass_frame_witness:
  "rd_kafka_doubleroundrobin_assignor_assign_cb (\<lambda>a b. 0) two_members_swapped [topic_t0] [] =
     Inr (0, [], two_members_dealt) \<and>
   mset (qsort_members two_members_swapped) = mset two_members_swapped \<and>
   extends (qsort_members two_members_swapped) two_members_dealt \<and>
   ids_sorted (map rkgm_member_id two_members_dealt)"
  using pass_frame [OF swapped_run] swapped_run by simp

subsection \<open>No replicas: the code against plain round robin\<close>

lemma filter_below: "n \<le> L \<Longrightarrow> filter (\<lambda>j. j < n) [0..<L] = [0..<n]"
proof (induction L)
  case 0
  then show ?case by simp
next
  case (Suc L)
  show ?case
  proof (cases "n = Suc L")
    case True
    have "filter (\<lambda>j. j < Suc L) [0..<Suc L] = [0..<Suc L]"
      by (rule filter_True) simp
    then show ?thesis using True by simp
  next
    case False
    then have "n \<le> L" using Suc.prems by simp
    then show ?thesis using Suc.IH by simp
  qed
qed

text \<open>
  When the member ids are distinct and the topic's eligible members are the first
  \<open>n\<close> members of the sorted array, plain round robin is dealing by position.
\<close>

lemma plain_round_robin_on_prefix:
  assumes n: "members et \<noteq> []" "length (members et) \<le> length ms"
    and d: "distinct (map rkgm_member_id ms)"
    and el: "set (members et) =
       rkgm_member_id ` set (take (length (members et)) (qsort_members ms))"
  shows "plain_round_robin ms et =
     deal_by_position (qsort_members ms) (length (members et)) (topic (metadata et))
       (nat (partition_cnt (metadata et)))"
proof -
  let ?srt = "qsort_members ms"
  let ?n = "length (members et)"
  have len: "length ?srt = length ms" by (rule length_qsort_members)
  have "mset (map rkgm_member_id ?srt) = mset (map rkgm_member_id ms)"
    by (simp add: mset_qsort_members)
  then have ds: "distinct (map rkgm_member_id ?srt)"
    using d mset_eq_imp_distinct_iff by blast
  have iff: "rkgm_member_id (?srt ! j) \<in> set (members et) \<longleftrightarrow> j < ?n"
    if j: "j < length ?srt" for j
  proof
    assume "rkgm_member_id (?srt ! j) \<in> set (members et)"
    then obtain x where x: "x \<in> set (take ?n ?srt)" "rkgm_member_id (?srt ! j) = rkgm_member_id x"
      unfolding el by auto
    then obtain k where k: "k < length (take ?n ?srt)" "x = take ?n ?srt ! k"
      by (auto simp: in_set_conv_nth)
    then have kn: "k < ?n" "k < length ?srt" "x = ?srt ! k" by simp_all
    have eq: "map rkgm_member_id ?srt ! j = map rkgm_member_id ?srt ! k"
      using x(2) kn j by simp
    have lj: "j < length (map rkgm_member_id ?srt)" "k < length (map rkgm_member_id ?srt)"
      using j kn(2) by simp_all
    have "j = k"
      using nth_eq_iff_index_eq [OF ds lj] eq by (rule iffD1)
    then show "j < ?n" using kn(1) by simp
  next
    assume jn: "j < ?n"
    then have "take ?n ?srt ! j = ?srt ! j" by simp
    moreover have "j < length (take ?n ?srt)" using jn j by simp
    ultimately have "?srt ! j \<in> set (take ?n ?srt)"
      by (metis nth_mem)
    then show "rkgm_member_id (?srt ! j) \<in> set (members et)"
      unfolding el by (rule imageI)
  qed
  have "eligible_positions ?srt et = filter (\<lambda>j. j < ?n) [0..<length ?srt]"
    unfolding eligible_positions_def by (rule filter_cong [OF refl]) (simp add: iff)
  also have "\<dots> = [0..<?n]"
    using n(2) len by (intro filter_below) simp
  finally have pos: "eligible_positions ?srt et = [0..<?n]" .
  have n0: "0 < ?n" using n(1) by simp
  have nth: "[0..<?n] ! (p mod ?n) = p mod ?n" for p
    using n0 by simp
  show ?thesis
    using n0 by (simp add: plain_round_robin_def Let_def pos deal_by_position_def nth)
qed

text \<open>
  So the code and plain round robin agree on a topic without replicas whose eligible
  members are the first \<open>n\<close> members of the sorted array, as they are when every
  member is eligible.
\<close>

lemma no_replicas_agrees_on_prefix:
  assumes "members et \<noteq> []" "length (members et) \<le> length ms"
    and "\<forall>i. Suc i < length (members et) \<longrightarrow>
           cls (rkgm_member_id (qsort_members ms ! i))
               (rkgm_member_id (qsort_members ms ! Suc i)) = 0"
    and "distinct (map rkgm_member_id ms)"
    and "set (members et) =
       rkgm_member_id ` set (take (length (members et)) (qsort_members ms))"
  shows "assign_topic cls ms et = Inr (plain_round_robin ms et)"
  using no_replicas_topic [OF assms(1,2,3)] plain_round_robin_on_prefix [OF assms(1,2,4,5)]
  by simp

lemma c0_unsubscribed_code:
  "rd_kafka_doubleroundrobin_assignor_assign_cb (\<lambda>a b. 0) c0_unsubscribed [topic_t_of_c1] [] =
     Inr (0, [],
       [\<lparr> rkgm_member_id = ''C0'', rkgm_subscription = [''u''], rkgm_assignment = [(''t'', 0)] \<rparr>,
        \<lparr> rkgm_member_id = ''C1'', rkgm_subscription = [''t''], rkgm_assignment = [] \<rparr>])"
  by code_simp

lemma c0_unsubscribed_round_robin:
  "plain_round_robin_pass c0_unsubscribed [topic_t_of_c1] =
     [\<lparr> rkgm_member_id = ''C0'', rkgm_subscription = [''u''], rkgm_assignment = [] \<rparr>,
      \<lparr> rkgm_member_id = ''C1'', rkgm_subscription = [''t''], rkgm_assignment = [(''t'', 0)] \<rparr>]"
  by code_simp

text \<open>
  Claim C9 fails on the code, by the defect of C5. The members C0 and C1 are
  classified as distinct, so every group has size 1; only C1 subscribes to the topic
  t and is in its list of eligible members. Plain round robin over the topic's
  members in sorted order gives the one partition of t to C1. The code reads the
  number of eligible members, 1, and deals by position in the whole sorted array: the
  partition goes to C0 and C1 receives nothing.
\<close>

theorem degenerate_round_robin_diverges:
  "rd_kafka_doubleroundrobin_assignor_assign_cb (\<lambda>a b. 0) c0_unsubscribed [topic_t_of_c1] [] =
     Inr (0, [],
       [\<lparr> rkgm_member_id = ''C0'', rkgm_subscription = [''u''], rkgm_assignment = [(''t'', 0)] \<rparr>,
        \<lparr> rkgm_member_id = ''C1'', rkgm_subscription = [''t''], rkgm_assignment = [] \<rparr>]) \<and>
   plain_round_robin_pass c0_unsubscribed [topic_t_of_c1] =
     [\<lparr> rkgm_member_id = ''C0'', rkgm_subscription = [''u''], rkgm_assignment = [] \<rparr>,
      \<lparr> rkgm_member_id = ''C1'', rkgm_subscription = [''t''], rkgm_assignment = [(''t'', 0)] \<rparr>]"
  using c0_unsubscribed_code c0_unsubscribed_round_robin by (intro conjI)

end
